theory Spec2Isabelle
  imports Main
begin

section \<open>JavaScript values\<close>

text \<open>
  The values the store handles. A function value is a reference: \<open>Fun f\<close> is a function
  written by the user of the library, identified by \<open>f\<close> (two references are \<open>===\<close> iff
  the identifiers are equal); \<open>Unsub h\<close> is the \<open>unsubscribe\<close> closure created by the
  \<open>h\<close>-th call of \<open>subscribe\<close>; \<open>ObserveState k observer\<close> is the \<open>observeState\<close>
  closure created by the \<open>k\<close>-th call of \<open>observable().subscribe\<close>, which holds the
  \<open>observer\<close> of that call. \<open>Instance c fields\<close> is an object whose prototype is the class
  \<open>c\<close>.
\<close>

datatype jsval =
    Undefined
  | Null
  | Boolean bool
  | Number int
  | Str string
  | Arr "jsval list"
  | Obj "(string \<times> jsval) list"
  | Instance string "(string \<times> jsval) list"
  | Fun nat
  | Unsub nat
  | ObserveState nat jsval

datatype jstype = TUndefined | TObject | TBoolean | TNumber | TString | TFunction

fun typeof :: "jsval \<Rightarrow> jstype" where
  "typeof Undefined = TUndefined"
| "typeof Null = TObject"
| "typeof (Boolean b) = TBoolean"
| "typeof (Number n) = TNumber"
| "typeof (Str s) = TString"
| "typeof (Arr xs) = TObject"
| "typeof (Obj fs) = TObject"
| "typeof (Instance c fs) = TObject"
| "typeof (Fun f) = TFunction"
| "typeof (Unsub h) = TFunction"
| "typeof (ObserveState k ob) = TFunction"

fun truthy :: "jsval \<Rightarrow> bool" where
  "truthy Undefined = False"
| "truthy Null = False"
| "truthy (Boolean b) = b"
| "truthy (Number n) = (n \<noteq> 0)"
| "truthy (Str s) = (s \<noteq> [])"
| "truthy v = True"

text \<open>
  Every \<open>throw\<close> of the two source files is one constructor; the message of the source is
  quoted beside it. \<open>NotAFunction\<close> and \<open>PropertyOfNullish\<close> are the TypeErrors of the
  language itself (calling a value that is not callable, reading a property of
  \<open>undefined\<close> or \<open>null\<close>); \<open>Thrown v\<close> is a \<open>throw\<close> of user code.
\<close>

datatype error =
    ExpectedEnhancerFunction       \<comment> \<open>Expected the enhancer to be a function.\<close>
  | ExpectedReducerFunction        \<comment> \<open>Expected the reducer to be a function.\<close>
  | GetStateWhileReducing          \<comment> \<open>You may not call store.getState() while the reducer is executing.\<close>
  | ExpectedListenerFunction       \<comment> \<open>Expected listener to be a function.\<close>
  | SubscribeWhileReducing         \<comment> \<open>You may not call store.subscribe() while the reducer is executing.\<close>
  | UnsubscribeWhileReducing       \<comment> \<open>You may not unsubscribe from a store listener while the reducer is executing.\<close>
  | ActionsMustBePlainObjects      \<comment> \<open>Actions must be plain objects.\<close>
  | UndefinedActionType            \<comment> \<open>Actions may not have an undefined "type" property.\<close>
  | ReducersMayNotDispatch         \<comment> \<open>Reducers may not dispatch actions.\<close>
  | ExpectedNextReducerFunction    \<comment> \<open>Expected the nextReducer to be a function.\<close>
  | ExpectedObserverObject         \<comment> \<open>TypeError: Expected the observer to be an object.\<close>
  | DispatchingWhileConstructing   \<comment> \<open>Dispatching while constructing your middleware is not allowed.\<close>
  | NotAFunction
  | PropertyOfNullish
  | Thrown jsval

text \<open>The classes of section 7 of the specification, over the errors of the source.\<close>

datatype error_class = ConfigError | ValidationError | ReentrancyError | OtherError

fun classify :: "error \<Rightarrow> error_class" where
  "classify ExpectedEnhancerFunction = ConfigError"
| "classify ExpectedReducerFunction = ConfigError"
| "classify ExpectedNextReducerFunction = ConfigError"
| "classify ActionsMustBePlainObjects = ValidationError"
| "classify UndefinedActionType = ValidationError"
| "classify ExpectedListenerFunction = ValidationError"
| "classify GetStateWhileReducing = ReentrancyError"
| "classify SubscribeWhileReducing = ReentrancyError"
| "classify UnsubscribeWhileReducing = ReentrancyError"
| "classify ReducersMayNotDispatch = ReentrancyError"
| "classify e = OtherError"

text \<open>
  \<open>v.k\<close>: the own field \<open>k\<close> of a record, \<open>undefined\<close> when it has none. The source reads
  only \<open>action.type\<close> and \<open>observer.next\<close>, which no built-in prototype defines.
\<close>

fun get_prop :: "jsval \<Rightarrow> string \<Rightarrow> error + jsval" where
  "get_prop Undefined k = Inl PropertyOfNullish"
| "get_prop Null k = Inl PropertyOfNullish"
| "get_prop (Obj fs) k = Inr (case map_of fs k of None \<Rightarrow> Undefined | Some v \<Rightarrow> v)"
| "get_prop (Instance c fs) k = Inr (case map_of fs k of None \<Rightarrow> Undefined | Some v \<Rightarrow> v)"
| "get_prop v k = Inr Undefined"

text \<open>
  Modelled from the spec: \<open>utils/isPlainObject.js\<close> is not among the sources. Section 4.2:
  an action "must be a plain structural record (not null, not an array, not a class
  instance, not a function)".
\<close>

fun isPlainObject :: "jsval \<Rightarrow> bool" where
  "isPlainObject (Obj fs) = True"
| "isPlainObject v = False"

text \<open>
  \<open>utils/actionTypes.js\<close>: a fixed prefix and
  \<open>Math.random().toString(36).substring(7).split('').join('.')\<close>; the random string of
  digits is a parameter.
\<close>

fun join_dots :: "string \<Rightarrow> string" where
  "join_dots [] = []"
| "join_dots [c] = [c]"
| "join_dots (c # cs) = c # CHR ''.'' # join_dots cs"

definition ActionTypes_INIT :: "string \<Rightarrow> string" where
  "ActionTypes_INIT rnd = ''@@redux/INIT'' @ join_dots rnd"

definition ActionTypes_REPLACE :: "string \<Rightarrow> string" where
  "ActionTypes_REPLACE rnd = ''@@redux/REPLACE'' @ join_dots rnd"

text \<open>\<open>Array.prototype.indexOf\<close> and \<open>splice(start, 1)\<close>, negative \<open>start\<close> included.\<close>

fun indexOf :: "'a list \<Rightarrow> 'a \<Rightarrow> int" where
  "indexOf [] x = - 1"
| "indexOf (y # ys) x =
     (if y = x then 0 else (let r = indexOf ys x in if r < 0 then - 1 else r + 1))"

definition splice1 :: "int \<Rightarrow> 'a list \<Rightarrow> 'a list" where
  "splice1 start xs =
     (let len = int (length xs);
          s = (if start < 0 then max (len + start) 0 else min start len)
      in take (nat s) xs @ drop (Suc (nat s)) xs)"

section \<open>User code\<close>

text \<open>
  Reducers, listeners and middleware are code of the user: a tree of the calls it makes,
  each with a continuation that receives what the call returned (\<open>Inr\<close>) or threw (\<open>Inl\<close>,
  as a \<open>try\<close>/\<open>catch\<close> around the call would see it).
\<close>

datatype ('c, 'a) prog =
    Return 'a
  | Throw error
  | Call 'c "error + jsval \<Rightarrow> ('c, 'a) prog"

text \<open>The calls user code can make, named after the expression of the source they run.\<close>

datatype cmd =
    GetState                    \<comment> \<open>\<open>store.getState()\<close>\<close>
  | Subscribe jsval             \<comment> \<open>\<open>store.subscribe(listener)\<close>\<close>
  | Dispatch jsval              \<comment> \<open>\<open>store.dispatch(action)\<close> of \<open>createStore\<close>\<close>
  | ReplaceReducer jsval        \<comment> \<open>\<open>store.replaceReducer(nextReducer)\<close>\<close>
  | Observe jsval               \<comment> \<open>\<open>store[$$observable]().subscribe(observer)\<close>\<close>
  | ApiDispatch jsval           \<comment> \<open>\<open>middlewareAPI.dispatch(action)\<close>\<close>
  | Invoke jsval "jsval list"   \<comment> \<open>\<open>f(...args)\<close> for a function value \<open>f\<close>\<close>

datatype mwcmd =
    Next jsval                  \<comment> \<open>\<open>next(action)\<close>, in a middleware's handler\<close>
  | Cmd cmd

type_synonym handler = "jsval \<Rightarrow> (mwcmd, jsval) prog"

text \<open>
  A middleware \<open>api => next => action => ...\<close>: its name, and the code that runs when it is
  given \<open>middlewareAPI\<close>, which returns the handler. The wrapper \<open>next => action => ...\<close>
  only builds the closure.
\<close>

datatype middleware = Middleware (mw_id: nat) (mw_setup: "(cmd, handler) prog")

text \<open>The variable \<open>dispatch\<close> of \<open>applyMiddleware\<close>, and the events a run is observed by.\<close>

datatype dispatch_var =
    NoMiddleware
  | Constructing
  | Composed "(nat \<times> handler) list"

datatype event =
    EvCall nat "jsval list"     \<comment> \<open>the user function \<open>f\<close> is called with these arguments\<close>
  | EvHandler nat jsval         \<comment> \<open>the handler of this middleware is called with this action\<close>

section \<open>The state of a store\<close>

text \<open>
  The variables of the closure of \<open>createStore\<close>. \<open>currentListeners\<close> and \<open>nextListeners\<close>
  are references into \<open>arrays\<close>, the arrays allocated so far (\<open>slice()\<close> allocates the
  next one, and no array is ever freed); \<open>closures\<close> holds, for each \<open>unsubscribe\<close>
  function, its \<open>listener\<close> and its \<open>isSubscribed\<close>; \<open>observeStates\<close> counts the
  \<open>observeState\<close> closures created so far. \<open>mwDispatch\<close> is the variable
  \<open>dispatch\<close> of the closure of \<open>applyMiddleware\<close>. \<open>trace\<close> records the calls of user
  functions in the order they are made; no function of the store reads it.
\<close>

record world =
  currentReducer :: jsval
  currentState :: jsval
  currentListeners :: nat
  nextListeners :: nat
  isDispatching :: bool
  arrays :: "jsval list list"
  closures :: "(jsval \<times> bool) list"
  observeStates :: nat
  mwDispatch :: dispatch_var
  trace :: "event list"

text \<open>
  What a call does: \<open>None\<close> when it does not return within the depth it was given,
  otherwise the value it returned or the error it threw, and the world it left.
\<close>

type_synonym 'a outcome = "((error + 'a) \<times> world) option"

text \<open>
  The program of the user: the body of every user function, for the arguments it is
  called with, and the two random strings of \<open>utils/actionTypes.js\<close>.
\<close>

record env =
  fn_body :: "nat \<Rightarrow> jsval list \<Rightarrow> (cmd, jsval) prog"
  random_INIT :: string
  random_REPLACE :: string

text \<open>Running user code: \<open>api\<close> makes the calls.\<close>

primrec run :: "('c \<Rightarrow> world \<Rightarrow> jsval outcome) \<Rightarrow> ('c, 'a) prog \<Rightarrow> world \<Rightarrow> 'a outcome" where
  "run api (Return v) w = Some (Inr v, w)"
| "run api (Throw e) w = Some (Inl e, w)"
| "run api (Call c k) w =
     (case api c w of None \<Rightarrow> None | Some (r, w') \<Rightarrow> run api (k r) w')"

section \<open>createStore.js\<close>

definition ensureCanMutateNextListeners :: "world \<Rightarrow> world" where
  "ensureCanMutateNextListeners w =
     (if nextListeners w = currentListeners w
      then w\<lparr>arrays := arrays w @ [arrays w ! currentListeners w],
              nextListeners := length (arrays w)\<rparr>
      else w)"

definition getState :: "world \<Rightarrow> (error + jsval) \<times> world" where
  "getState w =
     (if isDispatching w then (Inl GetStateWhileReducing, w)
      else (Inr (currentState w), w))"

definition unsubscribe :: "nat \<Rightarrow> world \<Rightarrow> (error + jsval) \<times> world" where
  "unsubscribe h w =
     (if length (closures w) \<le> h then (Inl NotAFunction, w)
      else
        (let listener = fst (closures w ! h); isSubscribed = snd (closures w ! h) in
         if \<not> isSubscribed then (Inr Undefined, w)
         else if isDispatching w then (Inl UnsubscribeWhileReducing, w)
         else
           (let w1 = w\<lparr>closures := (closures w)[h := (listener, False)]\<rparr>;
                w2 = ensureCanMutateNextListeners w1;
                index = indexOf (arrays w2 ! nextListeners w2) listener
            in (Inr Undefined,
                w2\<lparr>arrays := (arrays w2)[nextListeners w2 :=
                       splice1 index (arrays w2 ! nextListeners w2)]\<rparr>))))"

definition subscribe :: "jsval \<Rightarrow> world \<Rightarrow> (error + jsval) \<times> world" where
  "subscribe listener w =
     (if typeof listener \<noteq> TFunction then (Inl ExpectedListenerFunction, w)
      else if isDispatching w then (Inl SubscribeWhileReducing, w)
      else
        (let w1 = w\<lparr>closures := closures w @ [(listener, True)]\<rparr>;
             w2 = ensureCanMutateNextListeners w1
         in (Inr (Unsub (length (closures w))),
             w2\<lparr>arrays := (arrays w2)[nextListeners w2 :=
                    arrays w2 ! nextListeners w2 @ [listener]]\<rparr>)))"

definition replaceReducer ::
  "env \<Rightarrow> (jsval \<Rightarrow> world \<Rightarrow> jsval outcome) \<Rightarrow> jsval \<Rightarrow> world \<Rightarrow> jsval outcome" where
  "replaceReducer env dispatch' nextReducer w =
     (if typeof nextReducer \<noteq> TFunction then Some (Inl ExpectedNextReducerFunction, w)
      else
        (case dispatch' (Obj [(''type'', Str (ActionTypes_REPLACE (random_REPLACE env)))])
                (w\<lparr>currentReducer := nextReducer\<rparr>) of
           None \<Rightarrow> None
         | Some (Inl e, w') \<Rightarrow> Some (Inl e, w')
         | Some (Inr v, w') \<Rightarrow> Some (Inr Undefined, w')))"

text \<open>
  \<open>observeState\<close>, and \<open>subscribe(observer)\<close> of the object \<open>observable()\<close> returns; \<open>call\<close>
  calls a function value. Every call of \<open>subscribe(observer)\<close> creates an \<open>observeState\<close> of
  its own, which it calls once and then hands to the \<open>subscribe\<close> of the store.
\<close>

definition observeState ::
  "(jsval \<Rightarrow> jsval list \<Rightarrow> world \<Rightarrow> jsval outcome) \<Rightarrow> jsval \<Rightarrow> world \<Rightarrow> jsval outcome" where
  "observeState call observer w =
     (case get_prop observer ''next'' of
        Inl e \<Rightarrow> Some (Inl e, w)
      | Inr nxt \<Rightarrow>
          if truthy nxt then
            (case getState w of
               (Inl e, w1) \<Rightarrow> Some (Inl e, w1)
             | (Inr st, w1) \<Rightarrow>
                 (case call nxt [st] w1 of
                    None \<Rightarrow> None
                  | Some (Inl e, w2) \<Rightarrow> Some (Inl e, w2)
                  | Some (Inr v, w2) \<Rightarrow> Some (Inr Undefined, w2)))
          else Some (Inr Undefined, w))"

definition observable ::
  "(jsval \<Rightarrow> jsval list \<Rightarrow> world \<Rightarrow> jsval outcome) \<Rightarrow> jsval \<Rightarrow> world \<Rightarrow> jsval outcome" where
  "observable call observer w =
     (if typeof observer \<noteq> TObject then Some (Inl ExpectedObserverObject, w)
      else
        (let observeState' = ObserveState (observeStates w) observer in
         case observeState call observer (w\<lparr>observeStates := Suc (observeStates w)\<rparr>) of
           None \<Rightarrow> None
         | Some (Inl e, w1) \<Rightarrow> Some (Inl e, w1)
         | Some (Inr v, w1) \<Rightarrow>
             (case subscribe observeState' w1 of
                (Inl e, w2) \<Rightarrow> Some (Inl e, w2)
              | (Inr unsub, w2) \<Rightarrow> Some (Inr (Obj [(''unsubscribe'', unsub)]), w2))))"

section \<open>compose and the chain of middleware\<close>

text \<open>
  Modelled from the spec: \<open>compose.js\<close> is not among the sources. Section 4.1: "given zero
  or more unary functions \<open>f1..fn\<close>, produce a function \<open>g\<close> such that
  \<open>g(x) = f1(f2(...fn(x)))\<close>. With zero functions, \<open>g\<close> is the identity function."
\<close>

primrec compose :: "('a \<Rightarrow> 'a) list \<Rightarrow> 'a \<Rightarrow> 'a" where
  "compose [] = (\<lambda>x. x)"
| "compose (f # funcs) = (\<lambda>x. f (compose funcs x))"

text \<open>
  One element of \<open>chain\<close>: the function \<open>next => action => ...\<close> of the middleware whose
  handler is \<open>h\<close>; \<open>api\<close> runs the calls the handler makes on the store.
\<close>

definition link ::
  "(cmd \<Rightarrow> world \<Rightarrow> jsval outcome) \<Rightarrow> nat \<times> handler \<Rightarrow>
   (jsval \<Rightarrow> world \<Rightarrow> jsval outcome) \<Rightarrow> jsval \<Rightarrow> world \<Rightarrow> jsval outcome" where
  "link api mh next' action w =
     run (\<lambda>c. case c of Next a \<Rightarrow> next' a | Cmd c' \<Rightarrow> api c')
         (snd mh action)
         (w\<lparr>trace := trace w @ [EvHandler (fst mh) action]\<rparr>)"

section \<open>dispatch\<close>

text \<open>
  \<open>dispatch\<close>, its loop over the listeners (\<open>notify listeners i\<close> is the loop from index
  \<open>i\<close> on, reading the array at each turn as the source does), the call of a function value
  and the calls of user code. User code can call back without bound, so each takes the
  depth it may still use and returns \<open>None\<close> when that is used up.
  \<open>middlewareAPI.dispatch\<close> reads the variable \<open>dispatch\<close> when it is called; the chain it
  finds there ends in the \<open>dispatch\<close> of this store.
\<close>

fun dispatch :: "env \<Rightarrow> nat \<Rightarrow> jsval \<Rightarrow> world \<Rightarrow> jsval outcome"
and notify :: "env \<Rightarrow> nat \<Rightarrow> nat \<Rightarrow> nat \<Rightarrow> world \<Rightarrow> jsval outcome"
and call_fn :: "env \<Rightarrow> nat \<Rightarrow> jsval \<Rightarrow> jsval list \<Rightarrow> world \<Rightarrow> jsval outcome"
and call_cmd :: "env \<Rightarrow> nat \<Rightarrow> cmd \<Rightarrow> world \<Rightarrow> jsval outcome"
where
  "dispatch env 0 action w = None"
| "dispatch env (Suc n) action w =
     (if \<not> isPlainObject action then Some (Inl ActionsMustBePlainObjects, w)
      else if (case get_prop action ''type'' of Inl e \<Rightarrow> False | Inr t \<Rightarrow> typeof t = TUndefined)
        then Some (Inl UndefinedActionType, w)
      else if isDispatching w then Some (Inl ReducersMayNotDispatch, w)
      else
        (case call_fn env n (currentReducer w) [currentState w, action]
                (w\<lparr>isDispatching := True\<rparr>) of
           None \<Rightarrow> None
         | Some (Inl e, w1) \<Rightarrow> Some (Inl e, w1\<lparr>isDispatching := False\<rparr>)
         | Some (Inr st, w1) \<Rightarrow>
             (case notify env n (nextListeners w1) 0
                     (w1\<lparr>currentState := st, isDispatching := False,
                          currentListeners := nextListeners w1\<rparr>) of
                None \<Rightarrow> None
              | Some (Inl e, w2) \<Rightarrow> Some (Inl e, w2)
              | Some (Inr v, w2) \<Rightarrow> Some (Inr action, w2))))"
| "notify env 0 listeners i w = None"
| "notify env (Suc n) listeners i w =
     (if i < length (arrays w ! listeners) then
        (case call_fn env n (arrays w ! listeners ! i) [] w of
           None \<Rightarrow> None
         | Some (Inl e, w1) \<Rightarrow> Some (Inl e, w1)
         | Some (Inr v, w1) \<Rightarrow> notify env n listeners (Suc i) w1)
      else Some (Inr Undefined, w))"
| "call_fn env 0 f args w = None"
| "call_fn env (Suc n) f args w =
     (case f of
        Fun g \<Rightarrow> run (call_cmd env n) (fn_body env g args) (w\<lparr>trace := trace w @ [EvCall g args]\<rparr>)
      | Unsub h \<Rightarrow> Some (unsubscribe h w)
      | ObserveState k observer \<Rightarrow> observeState (call_fn env n) observer w
      | _ \<Rightarrow> Some (Inl NotAFunction, w))"
| "call_cmd env 0 c w = None"
| "call_cmd env (Suc n) c w =
     (case c of
        GetState \<Rightarrow> Some (getState w)
      | Subscribe listener \<Rightarrow> Some (subscribe listener w)
      | Dispatch action \<Rightarrow> dispatch env n action w
      | ReplaceReducer nextReducer \<Rightarrow> replaceReducer env (dispatch env n) nextReducer w
      | Observe observer \<Rightarrow> observable (call_fn env n) observer w
      | ApiDispatch action \<Rightarrow>
          (case mwDispatch w of
             NoMiddleware \<Rightarrow> Some (Inl NotAFunction, w)
           | Constructing \<Rightarrow> Some (Inl DispatchingWhileConstructing, w)
           | Composed chain \<Rightarrow>
               compose (map (link (call_cmd env n)) chain) (dispatch env n) action w)
      | Invoke f args \<Rightarrow> call_fn env n f args w)"

section \<open>The store object and createStore\<close>

text \<open>
  The object \<open>createStore\<close> returns: its methods, over the state of the store. A method
  that runs user code takes the depth first.
\<close>

record storeObj =
  obj_dispatch :: "nat \<Rightarrow> jsval \<Rightarrow> world \<Rightarrow> jsval outcome"
  obj_subscribe :: "jsval \<Rightarrow> world \<Rightarrow> (error + jsval) \<times> world"
  obj_getState :: "world \<Rightarrow> (error + jsval) \<times> world"
  obj_replaceReducer :: "nat \<Rightarrow> jsval \<Rightarrow> world \<Rightarrow> jsval outcome"
  obj_observable :: "nat \<Rightarrow> jsval \<Rightarrow> world \<Rightarrow> jsval outcome"

definition store_object :: "env \<Rightarrow> storeObj" where
  "store_object env =
     \<lparr>obj_dispatch = dispatch env,
      obj_subscribe = subscribe,
      obj_getState = getState,
      obj_replaceReducer = (\<lambda>n. replaceReducer env (dispatch env n)),
      obj_observable = (\<lambda>n. observable (call_fn env n))\<rparr>"

type_synonym creator = "jsval \<Rightarrow> jsval \<Rightarrow> jsval \<Rightarrow> (error + storeObj \<times> world) option"

definition initial_world :: "jsval \<Rightarrow> jsval \<Rightarrow> world" where
  "initial_world reducer preloadedState =
     \<lparr>currentReducer = reducer, currentState = preloadedState,
      currentListeners = 0, nextListeners = 0, isDispatching = False,
      arrays = [[]], closures = [], observeStates = 0, mwDispatch = NoMiddleware, trace = []\<rparr>"

text \<open>
  \<open>createStore\<close>. \<open>enhancer_of f\<close> is what the user function \<open>f\<close> does when it is called as
  an enhancer; the function it returns is called with two arguments, the third is
  \<open>undefined\<close>. An enhancer can call \<open>createStore\<close> again, so the depth is counted here too.
\<close>

fun createStore :: "env \<Rightarrow> (nat \<Rightarrow> creator \<Rightarrow> creator) \<Rightarrow> nat \<Rightarrow> creator" where
  "createStore env enhancer_of 0 reducer preloadedState enhancer = None"
| "createStore env enhancer_of (Suc n) reducer preloadedState enhancer =
     (let swap = (typeof preloadedState = TFunction \<and> typeof enhancer = TUndefined);
          enhancer1 = (if swap then preloadedState else enhancer);
          preloadedState1 = (if swap then Undefined else preloadedState)
      in
        if typeof enhancer1 \<noteq> TUndefined then
          (if typeof enhancer1 \<noteq> TFunction then Some (Inl ExpectedEnhancerFunction)
           else
             (case enhancer1 of
                Fun f \<Rightarrow>
                  enhancer_of f (createStore env enhancer_of n) reducer preloadedState1 Undefined
              | _ \<Rightarrow> Some (Inl NotAFunction)))
        else if typeof reducer \<noteq> TFunction then Some (Inl ExpectedReducerFunction)
        else
          (case dispatch env n (Obj [(''type'', Str (ActionTypes_INIT (random_INIT env)))])
                  (initial_world reducer preloadedState1) of
             None \<Rightarrow> None
           | Some (Inl e, w) \<Rightarrow> Some (Inl e)
           | Some (Inr v, w) \<Rightarrow> Some (Inr (store_object env, w))))"

section \<open>applyMiddleware.js\<close>

text \<open>\<open>middlewares.map(middleware => middleware(middlewareAPI))\<close>\<close>

fun map_middlewares ::
  "(cmd \<Rightarrow> world \<Rightarrow> jsval outcome) \<Rightarrow> middleware list \<Rightarrow> world \<Rightarrow> (nat \<times> handler) list outcome"
where
  "map_middlewares api [] w = Some (Inr [], w)"
| "map_middlewares api (m # ms) w =
     (case run api (mw_setup m) w of
        None \<Rightarrow> None
      | Some (Inl e, w1) \<Rightarrow> Some (Inl e, w1)
      | Some (Inr h, w1) \<Rightarrow>
          (case map_middlewares api ms w1 of
             None \<Rightarrow> None
           | Some (Inl e, w2) \<Rightarrow> Some (Inl e, w2)
           | Some (Inr hs, w2) \<Rightarrow> Some (Inr ((mw_id m, h) # hs), w2)))"

definition applyMiddleware :: "env \<Rightarrow> nat \<Rightarrow> middleware list \<Rightarrow> creator \<Rightarrow> creator" where
  "applyMiddleware env n middlewares createStore' reducer preloadedState enhancer =
     (case createStore' reducer preloadedState enhancer of
        None \<Rightarrow> None
      | Some (Inl e) \<Rightarrow> Some (Inl e)
      | Some (Inr (store, w)) \<Rightarrow>
          (case map_middlewares (call_cmd env n) middlewares (w\<lparr>mwDispatch := Constructing\<rparr>) of
             None \<Rightarrow> None
           | Some (Inl e, w1) \<Rightarrow> Some (Inl e)
           | Some (Inr chain, w1) \<Rightarrow>
               Some (Inr (store\<lparr>obj_dispatch :=
                            (\<lambda>k. compose (map (link (call_cmd env k)) chain) (obj_dispatch store k))\<rparr>,
                          w1\<lparr>mwDispatch := Composed chain\<rparr>))))"

section \<open>Notions the statements use\<close>

text \<open>An action that passes the two checks at the head of \<open>dispatch\<close>.\<close>

definition valid_action :: "jsval \<Rightarrow> bool" where
  "valid_action action = (isPlainObject action \<and> get_prop action ''type'' \<noteq> Inr Undefined)"

text \<open>
  Both references point at an allocated array; \<open>live w\<close> is the array \<open>nextListeners\<close>
  points at.
\<close>

definition wf_world :: "world \<Rightarrow> bool" where
  "wf_world w = (currentListeners w < length (arrays w) \<and> nextListeners w < length (arrays w))"

definition live :: "world \<Rightarrow> jsval list" where
  "live w = arrays w ! nextListeners w"

text \<open>
  The array at \<open>A\<close> can no longer be written to: \<open>nextListeners\<close> points at it only
  together with \<open>currentListeners\<close>, so that a writer copies it first. \<open>keeps w w'\<close>: the
  step from \<open>w\<close> to \<open>w'\<close> leaves every such array as it is.
\<close>

definition frozen :: "nat \<Rightarrow> world \<Rightarrow> bool" where
  "frozen A w =
     (A < length (arrays w) \<and> (A = nextListeners w \<longrightarrow> nextListeners w = currentListeners w))"

definition keeps :: "world \<Rightarrow> world \<Rightarrow> bool" where
  "keeps w w' =
     (wf_world w \<longrightarrow>
        wf_world w' \<and> (\<forall>A. frozen A w \<longrightarrow> frozen A w' \<and> arrays w' ! A = arrays w ! A))"

definition same_flag :: "world \<Rightarrow> world \<Rightarrow> bool" where
  "same_flag w w' = (isDispatching w' = isDispatching w)"

definition same_cell :: "world \<Rightarrow> world \<Rightarrow> bool" where
  "same_cell w w' = (mwDispatch w' = mwDispatch w)"

text \<open>
  \<open>preserves Q f\<close>: whenever \<open>f\<close> returns or throws, the worlds before and after are related
  by \<open>Q\<close>. \<open>closed_rel Q\<close> lists what a relation needs for every function of the store
  to preserve it.
\<close>

definition preserves :: "(world \<Rightarrow> world \<Rightarrow> bool) \<Rightarrow> (world \<Rightarrow> 'a outcome) \<Rightarrow> bool" where
  "preserves Q f = (\<forall>w r w'. f w = Some (r, w') \<longrightarrow> Q w w')"

definition closed_rel :: "(world \<Rightarrow> world \<Rightarrow> bool) \<Rightarrow> bool" where
  "closed_rel Q =
     ((\<forall>w. Q w w)
    \<and> (\<forall>a b c. Q a b \<longrightarrow> Q b c \<longrightarrow> Q a c)
    \<and> (\<forall>w t. Q w (w\<lparr>trace := t\<rparr>))
    \<and> (\<forall>w r. Q w (w\<lparr>currentReducer := r\<rparr>))
    \<and> (\<forall>w k. Q w (w\<lparr>observeStates := k\<rparr>))
    \<and> (\<forall>l w. Q w (snd (subscribe l w)))
    \<and> (\<forall>h w. Q w (snd (unsubscribe h w)))
    \<and> (\<forall>w w1. \<not> isDispatching w \<longrightarrow> Q (w\<lparr>isDispatching := True\<rparr>) w1 \<longrightarrow>
           Q w (w1\<lparr>isDispatching := False\<rparr>))
    \<and> (\<forall>w w1 st. \<not> isDispatching w \<longrightarrow> Q (w\<lparr>isDispatching := True\<rparr>) w1 \<longrightarrow>
           Q w (w1\<lparr>currentState := st, isDispatching := False,
                   currentListeners := nextListeners w1\<rparr>)))"

text \<open>
  The loop of \<open>dispatch\<close> as the specification words it: over the snapshot, a list taken
  once, where \<open>notify\<close> reads the array at every turn.
\<close>

fun notify_list :: "env \<Rightarrow> nat \<Rightarrow> jsval list \<Rightarrow> world \<Rightarrow> jsval outcome" where
  "notify_list env 0 snapshot w = None"
| "notify_list env (Suc n) [] w = Some (Inr Undefined, w)"
| "notify_list env (Suc n) (listener # rest) w =
     (case call_fn env n listener [] w of
        None \<Rightarrow> None
      | Some (Inl e, w1) \<Rightarrow> Some (Inl e, w1)
      | Some (Inr v, w1) \<Rightarrow> notify_list env n rest w1)"

text \<open>
  The user function \<open>r\<close> is the pure reducer \<open>T\<close>; the user function \<open>f\<close>, called as a
  listener, does nothing.
\<close>

definition pure_reducer :: "env \<Rightarrow> nat \<Rightarrow> (jsval \<Rightarrow> jsval \<Rightarrow> jsval) \<Rightarrow> bool" where
  "pure_reducer env r T = (\<forall>s a. fn_body env r [s, a] = Return (T s a))"

definition quiet :: "env \<Rightarrow> nat \<Rightarrow> bool" where
  "quiet env f = (fn_body env f [] = Return Undefined)"

text \<open>Subscribing listeners one after the other, and dispatching actions one after the other.\<close>

fun subscribe_all :: "jsval list \<Rightarrow> world \<Rightarrow> world" where
  "subscribe_all [] w = w"
| "subscribe_all (listener # rest) w = subscribe_all rest (snd (subscribe listener w))"

fun dispatch_all ::
  "storeObj \<Rightarrow> nat \<Rightarrow> jsval list \<Rightarrow> world \<Rightarrow> ((error + jsval) list \<times> world) option" where
  "dispatch_all store n [] w = Some ([], w)"
| "dispatch_all store n (action # rest) w =
     (case obj_dispatch store n action w of
        None \<Rightarrow> None
      | Some (r, w1) \<Rightarrow>
          (case dispatch_all store n rest w1 of
             None \<Rightarrow> None
           | Some (rs, w2) \<Rightarrow> Some (r # rs, w2)))"

text \<open>
  The listener of the snapshot law: it calls the \<open>unsubscribe\<close> function \<open>h\<close> and then
  subscribes the user function \<open>l\<close>.
\<close>

definition unsubscribe_then_subscribe :: "nat \<Rightarrow> nat \<Rightarrow> (cmd, jsval) prog" where
  "unsubscribe_then_subscribe h l =
     Call (Invoke (Unsub h) []) (\<lambda>r. Call (Subscribe (Fun l)) (\<lambda>r. Return Undefined))"

text \<open>
  \<open>force g p\<close> is the program \<open>p\<close> where every call \<open>c\<close> with \<open>g c = Some e\<close> is not made:
  the program goes on as if the call had thrown \<open>e\<close>. \<open>while_reducing\<close> gives the error of
  the calls that are refused while a reducer runs, \<open>while_constructing\<close> that of the call
  refused while the middleware is put together; \<open>constructing m\<close> is the middleware \<open>m\<close>
  with its calls forced so.
\<close>

primrec force :: "('c \<Rightarrow> error option) \<Rightarrow> ('c, 'a) prog \<Rightarrow> ('c, 'a) prog" where
  "force g (Return v) = Return v"
| "force g (Throw e) = Throw e"
| "force g (Call c k) =
     (case g c of
        Some e \<Rightarrow> force g (k (Inl e))
      | None \<Rightarrow> Call c (\<lambda>r. force g (k r)))"

definition while_reducing :: "cmd \<Rightarrow> error option" where
  "while_reducing c =
     (case c of
        GetState \<Rightarrow> Some GetStateWhileReducing
      | Subscribe listener \<Rightarrow>
          if typeof listener = TFunction then Some SubscribeWhileReducing else None
      | Dispatch action \<Rightarrow>
          if valid_action action then Some ReducersMayNotDispatch else None
      | _ \<Rightarrow> None)"

definition while_constructing :: "cmd \<Rightarrow> error option" where
  "while_constructing c = (case c of ApiDispatch action \<Rightarrow> Some DispatchingWhileConstructing | _ \<Rightarrow> None)"

definition constructing :: "middleware \<Rightarrow> middleware" where
  "constructing m = Middleware (mw_id m) (force while_constructing (mw_setup m))"

text \<open>A program of user code as the handler of a middleware that never calls \<open>next\<close>.\<close>

primrec lift :: "(cmd, 'a) prog \<Rightarrow> (mwcmd, 'a) prog" where
  "lift (Return v) = Return v"
| "lift (Throw e) = Throw e"
| "lift (Call c k) = Call (Cmd c) (\<lambda>r. lift (k r))"

section \<open>Example programs\<close>

text \<open>
  The reducer of section 8 of the specification,
  \<open>count(state = 0, action) => action.type === 'inc' ? state + 1 : state\<close>, as the user
  function 0; every other user function does nothing.
\<close>

definition count :: "jsval \<Rightarrow> jsval \<Rightarrow> jsval" where
  "count state action =
     (let st = (if state = Undefined then Number 0 else state) in
      if get_prop action ''type'' = Inr (Str ''inc'')
      then (case st of Number k \<Rightarrow> Number (k + 1) | _ \<Rightarrow> st)
      else st)"

definition ex_env :: env where
  "ex_env =
     \<lparr>fn_body = (\<lambda>f args.
        if f = 0 then (case args of [s, a] \<Rightarrow> Return (count s a) | _ \<Rightarrow> Return Undefined)
        else Return Undefined),
      random_INIT = ''4k2x9'', random_REPLACE = ''p0q7m''\<rparr>"

definition act_inc :: jsval where
  "act_inc = Obj [(''type'', Str ''inc'')]"

text \<open>
  A reducer that, given the action \<open>probe\<close>, calls the \<open>unsubscribe\<close> function of the first
  subscription and makes the state say whether the call returned or threw.
\<close>

definition probe :: jsval where
  "probe = Obj [(''type'', Str ''probe'')]"

definition cx9_env :: env where
  "cx9_env =
     \<lparr>fn_body = (\<lambda>f args.
        if f = 0 then
          (case args of
             [s, a] \<Rightarrow>
               if a = probe
               then Call (Invoke (Unsub 0) [])
                      (\<lambda>r. Return (case r of Inl e \<Rightarrow> Str ''threw'' | Inr v \<Rightarrow> Str ''returned''))
               else Return (Str ''init'')
           | _ \<Rightarrow> Return Undefined)
        else Return Undefined),
      random_INIT = ''4k2x9'', random_REPLACE = ''p0q7m''\<rparr>"

text \<open>The store of that reducer after \<open>subscribe(f1)\<close> and one call of its \<open>unsubscribe\<close>.\<close>

definition cx9_world :: world where
  "cx9_world =
     (case createStore cx9_env (\<lambda>f c. c) 4 (Fun 0) Undefined Undefined of
        Some (Inr (store, w0)) \<Rightarrow> snd (unsubscribe 0 (snd (obj_subscribe store (Fun 1) w0))))"

text \<open>
  The store of section 8's reducer with the listener of the snapshot law as the user
  function 2 (it unsubscribes the second subscription and subscribes the user function 4).
\<close>

definition ex2_env :: env where
  "ex2_env =
     \<lparr>fn_body = (\<lambda>f args.
        if f = 0 then (case args of [s, a] \<Rightarrow> Return (count s a) | _ \<Rightarrow> Return Undefined)
        else if f = 2 \<and> args = [] then unsubscribe_then_subscribe 1 4
        else Return Undefined),
      random_INIT = ''4k2x9'', random_REPLACE = ''p0q7m''\<rparr>"

text \<open>
  A reducer that, given the action \<open>boom\<close>, dispatches from inside and lets the error
  through.
\<close>

definition boom :: jsval where
  "boom = Obj [(''type'', Str ''boom'')]"

definition c4_env :: env where
  "c4_env =
     \<lparr>fn_body = (\<lambda>f args.
        if f = 0 then
          (case args of
             [s, a] \<Rightarrow>
               if a = boom
               then Call (Dispatch act_inc) (\<lambda>r. case r of Inl e \<Rightarrow> Throw e | Inr v \<Rightarrow> Return s)
               else Return (count s a)
           | _ \<Rightarrow> Return Undefined)
        else Return Undefined),
      random_INIT = ''4k2x9'', random_REPLACE = ''p0q7m''\<rparr>"

text \<open>
  A listener (the user function 1) that calls \<open>getState\<close> and hands what it got, or
  \<open>threw\<close>, to the user function 9.
\<close>

definition cx5_env :: env where
  "cx5_env =
     \<lparr>fn_body = (\<lambda>f args.
        if f = 0 then (case args of [s, a] \<Rightarrow> Return (count s a) | _ \<Rightarrow> Return Undefined)
        else if f = 1 then
          Call GetState (\<lambda>r. Call (Invoke (Fun 9) [case r of Inl e \<Rightarrow> Str ''threw'' | Inr v \<Rightarrow> v])
            (\<lambda>r. Return Undefined))
        else Return Undefined),
      random_INIT = ''4k2x9'', random_REPLACE = ''p0q7m''\<rparr>"

text \<open>
  Middleware: one that passes every action on, one that answers \<open>probe\<close> itself and
  passes the rest on, and one that dispatches while it is being set up.
\<close>

definition pass_on :: handler where
  "pass_on action = Call (Next action) (\<lambda>r. case r of Inl e \<Rightarrow> Throw e | Inr v \<Rightarrow> Return v)"

definition swallow_probe :: handler where
  "swallow_probe action = (if action = probe then Return (Str ''swallowed'') else pass_on action)"

definition mw_swallow :: middleware where
  "mw_swallow = Middleware 1 (Return swallow_probe)"

definition mw_pass :: middleware where
  "mw_pass = Middleware 2 (Return pass_on)"

definition mw_eager :: middleware where
  "mw_eager = Middleware 3
     (Call (ApiDispatch act_inc) (\<lambda>r. case r of Inl e \<Rightarrow> Throw e | Inr v \<Rightarrow> Return pass_on))"

text \<open>
  The store \<open>createStore(count)\<close> returns, and a store with one subscription whose flag is
  set.
\<close>

definition ex_world :: world where
  "ex_world =
     (initial_world (Fun 0) Undefined)
       \<lparr>trace := [EvCall 0 [Undefined, Obj [(''type'', Str (ActionTypes_INIT (random_INIT ex_env)))]]],
        currentState := Number 0, isDispatching := False, currentListeners := 0\<rparr>"

definition busy_world :: world where
  "busy_world = (snd (subscribe (Fun 1) (initial_world (Fun 0) (Number 0))))\<lparr>isDispatching := True\<rparr>"

section \<open>Lists and values\<close>

lemma typeof_undefined: "(typeof t = TUndefined) = (t = Undefined)"
  by (cases t) auto

lemma indexOf_notin: "x \<notin> set xs \<Longrightarrow> indexOf xs x = - 1"
  by (induction xs) (auto simp: Let_def)

lemma indexOf_in: "x \<in> set xs \<Longrightarrow> 0 \<le> indexOf xs x \<and> indexOf xs x < int (length xs)"
  by (induction xs) (auto simp: Let_def)

lemma take_drop_indexOf:
  "x \<in> set xs \<Longrightarrow> take (nat (indexOf xs x)) xs @ drop (Suc (nat (indexOf xs x))) xs = remove1 x xs"
proof (induction xs)
  case Nil
  then show ?case by simp
next
  case (Cons y ys)
  show ?case
  proof (cases "y = x")
    case True
    then show ?thesis by simp
  next
    case False
    with Cons.prems have mem: "x \<in> set ys" by simp
    from indexOf_in[OF mem] have nn: "0 \<le> indexOf ys x" by simp
    then have "nat (indexOf ys x + 1) = Suc (nat (indexOf ys x))" by simp
    with False nn Cons.IH[OF mem] show ?thesis by (simp add: Let_def)
  qed
qed

lemma splice1_indexOf: "x \<in> set xs \<Longrightarrow> splice1 (indexOf xs x) xs = remove1 x xs"
  using indexOf_in[of x xs] take_drop_indexOf[of x xs]
  by (simp add: splice1_def Let_def min_def)

section \<open>subscribe and unsubscribe on an idle store\<close>

lemma subscribe_idle:
  assumes "wf_world w" "\<not> isDispatching w" "typeof listener = TFunction"
  shows "\<exists>w'. subscribe listener w = (Inr (Unsub (length (closures w))), w')
           \<and> live w' = live w @ [listener]
           \<and> closures w' = closures w @ [(listener, True)]
           \<and> wf_world w' \<and> \<not> isDispatching w'
           \<and> currentListeners w' = currentListeners w
           \<and> arrays w' ! currentListeners w = arrays w ! currentListeners w
           \<and> nextListeners w' \<noteq> currentListeners w'
           \<and> currentState w' = currentState w \<and> currentReducer w' = currentReducer w
           \<and> trace w' = trace w \<and> mwDispatch w' = mwDispatch w"
  using assms
  by (auto simp: subscribe_def ensureCanMutateNextListeners_def Let_def wf_world_def live_def nth_append)

lemma unsubscribe_idle:
  assumes "wf_world w" "\<not> isDispatching w" "h < length (closures w)" "closures w ! h = (listener, True)"
  shows "\<exists>w'. unsubscribe h w = (Inr Undefined, w')
           \<and> live w' = splice1 (indexOf (live w) listener) (live w)
           \<and> closures w' = (closures w)[h := (listener, False)]
           \<and> wf_world w' \<and> \<not> isDispatching w'
           \<and> currentListeners w' = currentListeners w
           \<and> arrays w' ! currentListeners w = arrays w ! currentListeners w
           \<and> nextListeners w' \<noteq> currentListeners w'
           \<and> currentState w' = currentState w \<and> currentReducer w' = currentReducer w
           \<and> trace w' = trace w \<and> mwDispatch w' = mwDispatch w"
  using assms
  by (auto simp: unsubscribe_def ensureCanMutateNextListeners_def Let_def wf_world_def live_def nth_append)

lemma unsubscribe_again:
  "h < length (closures w) \<Longrightarrow> \<not> snd (closures w ! h) \<Longrightarrow> unsubscribe h w = (Inr Undefined, w)"
  by (simp add: unsubscribe_def Let_def)

lemma unsubscribe_dispatching:
  "h < length (closures w) \<Longrightarrow> snd (closures w ! h) \<Longrightarrow> isDispatching w \<Longrightarrow>
   unsubscribe h w = (Inl UnsubscribeWhileReducing, w)"
  by (simp add: unsubscribe_def Let_def)

section \<open>What every call preserves\<close>

lemma preservesI: "(\<And>w r w'. f w = Some (r, w') \<Longrightarrow> Q w w') \<Longrightarrow> preserves Q f"
  by (simp add: preserves_def)

lemma preservesD: "preserves Q f \<Longrightarrow> f w = Some (r, w') \<Longrightarrow> Q w w'"
  by (auto simp: preserves_def)

lemma closed_refl: "closed_rel Q \<Longrightarrow> Q w w"
  by (simp add: closed_rel_def)

lemma closed_trans: "closed_rel Q \<Longrightarrow> Q a b \<Longrightarrow> Q b c \<Longrightarrow> Q a c"
  unfolding closed_rel_def by blast

lemma closed_trace: "closed_rel Q \<Longrightarrow> Q w (w\<lparr>trace := t\<rparr>)"
  by (simp add: closed_rel_def)

lemma closed_reducer: "closed_rel Q \<Longrightarrow> Q w (w\<lparr>currentReducer := r\<rparr>)"
  by (simp add: closed_rel_def)

lemma closed_observeStates: "closed_rel Q \<Longrightarrow> Q w (w\<lparr>observeStates := k\<rparr>)"
  by (simp add: closed_rel_def)

lemma closed_subscribe: "closed_rel Q \<Longrightarrow> subscribe l w = (r, w') \<Longrightarrow> Q w w'"
  unfolding closed_rel_def by (metis snd_conv)

lemma closed_unsubscribe: "closed_rel Q \<Longrightarrow> unsubscribe h w = (r, w') \<Longrightarrow> Q w w'"
  unfolding closed_rel_def by (metis snd_conv)

lemma closed_throw:
  "closed_rel Q \<Longrightarrow> \<not> isDispatching w \<Longrightarrow> Q (w\<lparr>isDispatching := True\<rparr>) w1 \<Longrightarrow>
   Q w (w1\<lparr>isDispatching := False\<rparr>)"
  unfolding closed_rel_def by blast

lemma closed_reduce:
  "closed_rel Q \<Longrightarrow> \<not> isDispatching w \<Longrightarrow> Q (w\<lparr>isDispatching := True\<rparr>) w1 \<Longrightarrow>
   Q w (w1\<lparr>currentState := st, isDispatching := False, currentListeners := nextListeners w1\<rparr>)"
  unfolding closed_rel_def by blast

lemma run_preserves:
  assumes cl: "closed_rel Q"
    and api: "\<And>c. preserves Q (api c)"
  shows "preserves Q (run api p)"
proof (induction p)
  case (Return v)
  show ?case by (auto simp: preserves_def closed_refl[OF cl])
next
  case (Throw e)
  show ?case by (auto simp: preserves_def closed_refl[OF cl])
next
  case (Call c k)
  show ?case
  proof (rule preservesI)
    fix w r w'
    assume a: "run api (Call c k) w = Some (r, w')"
    then obtain r1 w1 where s1: "api c w = Some (r1, w1)" and s2: "run api (k r1) w1 = Some (r, w')"
      by (auto split: option.splits)
    have "Q w w1" using preservesD[OF api s1] .
    moreover have "Q w1 w'" using preservesD[OF Call.IH s2] by simp
    ultimately show "Q w w'" by (rule closed_trans[OF cl])
  qed
qed

lemma observeState_preserves:
  assumes cl: "closed_rel Q"
    and call: "\<And>f args. preserves Q (call f args)"
  shows "preserves Q (observeState call observer)"
  apply (rule preservesI)
  apply (auto simp: observeState_def getState_def closed_refl[OF cl]
      split: sum.splits if_splits option.splits prod.splits
      dest: preservesD[OF call])
  done

lemma observable_preserves:
  assumes cl: "closed_rel Q"
    and call: "\<And>f args. preserves Q (call f args)"
  shows "preserves Q (observable call observer)"
proof (rule preservesI)
  fix w r w'
  assume a: "observable call observer w = Some (r, w')"
  show "Q w w'"
  proof (cases "typeof observer \<noteq> TObject")
    case True
    with a show ?thesis by (simp add: observable_def closed_refl[OF cl])
  next
    case False
    let ?w0 = "w\<lparr>observeStates := Suc (observeStates w)\<rparr>"
    from False a obtain r1 w1 where o: "observeState call observer ?w0 = Some (r1, w1)"
      by (auto simp: observable_def Let_def split: option.splits)
    have "Q ?w0 w1" using preservesD[OF observeState_preserves[OF cl call] o] .
    with closed_observeStates[OF cl] have q1: "Q w w1" by (rule closed_trans[OF cl])
    show ?thesis
    proof (cases r1)
      case (Inl e)
      with a False o show ?thesis using q1 by (simp add: observable_def Let_def)
    next
      case (Inr v)
      with a False o obtain r2 where
        "subscribe (ObserveState (observeStates w) observer) w1 = (r2, w')"
        by (auto simp: observable_def Let_def split: prod.splits sum.splits)
      from closed_subscribe[OF cl this] q1 show ?thesis by (rule closed_trans[OF cl, rotated])
    qed
  qed
qed

lemma replaceReducer_preserves:
  assumes cl: "closed_rel Q"
    and d: "\<And>a. preserves Q (d a)"
  shows "preserves Q (replaceReducer env d nextReducer)"
proof (rule preservesI)
  fix w r w'
  assume a: "replaceReducer env d nextReducer w = Some (r, w')"
  show "Q w w'"
  proof (cases "typeof nextReducer \<noteq> TFunction")
    case True
    with a show ?thesis by (simp add: replaceReducer_def closed_refl[OF cl])
  next
    case False
    with a obtain r1 where
      "d (Obj [(''type'', Str (ActionTypes_REPLACE (random_REPLACE env)))])
         (w\<lparr>currentReducer := nextReducer\<rparr>) = Some (r1, w')"
      by (auto simp: replaceReducer_def split: option.splits sum.splits)
    from preservesD[OF d this] closed_reducer[OF cl, of w nextReducer]
    show ?thesis by (rule closed_trans[OF cl, rotated])
  qed
qed

lemma link_preserves:
  assumes cl: "closed_rel Q"
    and api: "\<And>c. preserves Q (api c)"
    and nx: "\<And>a. preserves Q (nx a)"
  shows "preserves Q (link api mh nx action)"
proof (rule preservesI)
  fix w r w'
  assume a: "link api mh nx action w = Some (r, w')"
  have "preserves Q (case c of Next a \<Rightarrow> nx a | Cmd c' \<Rightarrow> api c')" for c
    by (simp add: api nx split: mwcmd.splits)
  then have "preserves Q (run (\<lambda>c. case c of Next a \<Rightarrow> nx a | Cmd c' \<Rightarrow> api c') (snd mh action))"
    by (rule run_preserves[OF cl])
  then have "Q (w\<lparr>trace := trace w @ [EvHandler (fst mh) action]\<rparr>) w'"
    using a unfolding link_def by (rule preservesD)
  with closed_trace[OF cl] show "Q w w'" by (rule closed_trans[OF cl])
qed

lemma chain_preserves:
  assumes cl: "closed_rel Q"
    and api: "\<And>c. preserves Q (api c)"
    and d: "\<And>a. preserves Q (d a)"
  shows "preserves Q (compose (map (link api) chain) d action)"
proof (induction chain arbitrary: action)
  case Nil
  show ?case by (simp add: d)
next
  case (Cons mh chain)
  show ?case
    using link_preserves[of Q api "compose (map (link api) chain) d" mh action, OF cl api Cons.IH]
    by simp
qed

lemma family_preserves:
  assumes cl: "closed_rel Q"
  shows "(\<forall>a. preserves Q (dispatch env n a))
       \<and> (\<forall>A i. preserves Q (notify env n A i))
       \<and> (\<forall>f args. preserves Q (call_fn env n f args))
       \<and> (\<forall>c. preserves Q (call_cmd env n c))"
proof (induction n)
  case 0
  show ?case by (simp add: preserves_def)
next
  case (Suc n)
  note refl = closed_refl[OF cl] and trans = closed_trans[OF cl]
  from Suc have D: "\<And>a. preserves Q (dispatch env n a)"
    and N: "\<And>A i. preserves Q (notify env n A i)"
    and F: "\<And>f args. preserves Q (call_fn env n f args)"
    and C: "\<And>c. preserves Q (call_cmd env n c)" by blast+
  have d: "preserves Q (dispatch env (Suc n) a)" for a
  proof (rule preservesI)
    fix w r w'
    assume a: "dispatch env (Suc n) a w = Some (r, w')"
    show "Q w w'"
    proof (cases "\<not> isPlainObject a \<or> (case get_prop a ''type'' of Inl e \<Rightarrow> False | Inr t \<Rightarrow> typeof t = TUndefined) \<or> isDispatching w")
      case True
      with a have "w' = w" by (auto split: if_splits)
      then show ?thesis by (simp add: refl)
    next
      case False
      then have idle: "\<not> isDispatching w" by simp
      from False a obtain r1 w1 where
        c1: "call_fn env n (currentReducer w) [currentState w, a] (w\<lparr>isDispatching := True\<rparr>) = Some (r1, w1)"
        by (auto split: option.splits)
      have q1: "Q (w\<lparr>isDispatching := True\<rparr>) w1" using preservesD[OF F c1] .
      show ?thesis
      proof (cases r1)
        case (Inl e)
        with False a c1 have "w' = w1\<lparr>isDispatching := False\<rparr>" by auto
        then show ?thesis using closed_throw[OF cl idle q1] by simp
      next
        case (Inr st)
        let ?w2 = "w1\<lparr>currentState := st, isDispatching := False, currentListeners := nextListeners w1\<rparr>"
        from Inr False a c1 obtain r2 where
          c2: "notify env n (nextListeners w1) 0 ?w2 = Some (r2, w')"
          by (auto split: option.splits sum.splits)
        have "Q ?w2 w'" using preservesD[OF N c2] .
        with closed_reduce[OF cl idle q1, of st] show ?thesis by (rule trans)
      qed
    qed
  qed
  have nt: "preserves Q (notify env (Suc n) A i)" for A i
  proof (rule preservesI)
    fix w r w'
    assume a: "notify env (Suc n) A i w = Some (r, w')"
    show "Q w w'"
    proof (cases "i < length (arrays w ! A)")
      case False
      with a show ?thesis by (simp add: refl)
    next
      case True
      with a obtain r1 w1 where c1: "call_fn env n (arrays w ! A ! i) [] w = Some (r1, w1)"
        by (auto split: option.splits)
      have q1: "Q w w1" using preservesD[OF F c1] .
      show ?thesis
      proof (cases r1)
        case (Inl e)
        with True a c1 show ?thesis using q1 by simp
      next
        case (Inr v)
        with True a c1 have "notify env n A (Suc i) w1 = Some (r, w')" by simp
        from q1 preservesD[OF N this] show ?thesis by (rule trans)
      qed
    qed
  qed
  have f: "preserves Q (call_fn env (Suc n) f args)" for f args
  proof (cases f)
    case (Fun g)
    have p: "preserves Q (run (call_cmd env n) (fn_body env g args))"
      by (rule run_preserves[OF cl C])
    show ?thesis unfolding Fun
    proof (rule preservesI)
      fix w r w'
      assume "call_fn env (Suc n) (Fun g) args w = Some (r, w')"
      then have "run (call_cmd env n) (fn_body env g args) (w\<lparr>trace := trace w @ [EvCall g args]\<rparr>) = Some (r, w')"
        by simp
      from closed_trace[OF cl] preservesD[OF p this] show "Q w w'" by (rule trans)
    qed
  next
    case (Unsub h)
    show ?thesis unfolding Unsub
      by (rule preservesI) (auto intro: closed_unsubscribe[OF cl])
  next
    case (ObserveState j ob)
    show ?thesis unfolding ObserveState
      using observeState_preserves[of Q "call_fn env n" ob, OF cl F] by (simp add: preserves_def)
  qed (auto simp: preserves_def refl)
  have c: "preserves Q (call_cmd env (Suc n) c)" for c
  proof (cases c)
    case GetState
    show ?thesis unfolding GetState by (auto simp: preserves_def getState_def refl)
  next
    case (Subscribe l)
    show ?thesis unfolding Subscribe
      by (rule preservesI) (auto intro: closed_subscribe[OF cl])
  next
    case (Dispatch a)
    show ?thesis unfolding Dispatch using D by (simp add: preserves_def)
  next
    case (ReplaceReducer r)
    show ?thesis unfolding ReplaceReducer
      using replaceReducer_preserves[of Q "dispatch env n" env r, OF cl D] by (simp add: preserves_def)
  next
    case (Observe ob)
    show ?thesis unfolding Observe
      using observable_preserves[of Q "call_fn env n" ob, OF cl F] by (simp add: preserves_def)
  next
    case (ApiDispatch a)
    show ?thesis
    proof (rule preservesI)
      fix w r w'
      assume a1: "call_cmd env (Suc n) c w = Some (r, w')"
      show "Q w w'"
      proof (cases "mwDispatch w")
        case NoMiddleware
        with a1 ApiDispatch show ?thesis by (simp add: refl)
      next
        case Constructing
        with a1 ApiDispatch show ?thesis by (simp add: refl)
      next
        case (Composed chain)
        with a1 ApiDispatch have "compose (map (link (call_cmd env n)) chain) (dispatch env n) a w = Some (r, w')"
          by simp
        from preservesD[OF chain_preserves[of Q "call_cmd env n" "dispatch env n" chain a, OF cl C D] this]
        show ?thesis .
      qed
    qed
  next
    case (Invoke f args)
    show ?thesis unfolding Invoke using F by (simp add: preserves_def)
  qed
  from d nt f c show ?case by blast
qed


lemma dispatch_preserves:
  "closed_rel Q \<Longrightarrow> dispatch env n a w = Some (r, w') \<Longrightarrow> Q w w'"
  using family_preserves[of Q env n] by (blast dest: preservesD)

lemma notify_preserves:
  "closed_rel Q \<Longrightarrow> notify env n A i w = Some (r, w') \<Longrightarrow> Q w w'"
  using family_preserves[of Q env n] by (blast dest: preservesD)

lemma call_fn_preserves:
  "closed_rel Q \<Longrightarrow> call_fn env n f args w = Some (r, w') \<Longrightarrow> Q w w'"
  using family_preserves[of Q env n] by (blast dest: preservesD)

lemma call_cmd_preserves:
  "closed_rel Q \<Longrightarrow> call_cmd env n c w = Some (r, w') \<Longrightarrow> Q w w'"
  using family_preserves[of Q env n] by (blast dest: preservesD)


lemma closed_same_flag: "closed_rel same_flag"
  unfolding closed_rel_def same_flag_def
  by (auto simp: subscribe_def unsubscribe_def ensureCanMutateNextListeners_def Let_def)

lemma closed_same_cell: "closed_rel same_cell"
  unfolding closed_rel_def same_cell_def
  by (auto simp: subscribe_def unsubscribe_def ensureCanMutateNextListeners_def Let_def)

lemma keeps_mutate:
  "keeps w ((ensureCanMutateNextListeners w)\<lparr>arrays :=
       (arrays (ensureCanMutateNextListeners w))[nextListeners (ensureCanMutateNextListeners w) := xs]\<rparr>)"
proof (cases "nextListeners w = currentListeners w")
  case True
  then show ?thesis
    by (simp add: keeps_def frozen_def wf_world_def ensureCanMutateNextListeners_def nth_append)
next
  case False
  then show ?thesis
    by (simp add: keeps_def frozen_def wf_world_def ensureCanMutateNextListeners_def)
qed

lemma keeps_refl: "keeps w w"
  by (simp add: keeps_def)

lemma keeps_trans: "keeps a b \<Longrightarrow> keeps b c \<Longrightarrow> keeps a c"
  by (simp add: keeps_def)

lemma keeps_closures: "keeps w (w\<lparr>closures := cs\<rparr>)"
  by (simp add: keeps_def frozen_def wf_world_def)

lemma keeps_subscribe: "keeps w (snd (subscribe l w))"
proof (cases "typeof l \<noteq> TFunction \<or> isDispatching w")
  case True
  then show ?thesis by (auto simp: subscribe_def keeps_refl)
next
  case False
  then have "snd (subscribe l w) =
     (ensureCanMutateNextListeners (w\<lparr>closures := closures w @ [(l, True)]\<rparr>))\<lparr>arrays :=
       (arrays (ensureCanMutateNextListeners (w\<lparr>closures := closures w @ [(l, True)]\<rparr>)))
         [nextListeners (ensureCanMutateNextListeners (w\<lparr>closures := closures w @ [(l, True)]\<rparr>)) :=
            arrays (ensureCanMutateNextListeners (w\<lparr>closures := closures w @ [(l, True)]\<rparr>)) !
              nextListeners (ensureCanMutateNextListeners (w\<lparr>closures := closures w @ [(l, True)]\<rparr>)) @ [l]]\<rparr>"
    by (simp add: subscribe_def Let_def)
  then show ?thesis
    using keeps_trans[OF keeps_closures keeps_mutate] by simp
qed

lemma keeps_unsubscribe: "keeps w (snd (unsubscribe h w))"
proof (cases "length (closures w) \<le> h \<or> \<not> snd (closures w ! h) \<or> isDispatching w")
  case True
  then show ?thesis by (auto simp: unsubscribe_def keeps_refl Let_def)
next
  case False
  let ?w1 = "w\<lparr>closures := (closures w)[h := (fst (closures w ! h), False)]\<rparr>"
  let ?w2 = "ensureCanMutateNextListeners ?w1"
  from False have "snd (unsubscribe h w) =
     ?w2\<lparr>arrays := (arrays ?w2)[nextListeners ?w2 :=
        splice1 (indexOf (arrays ?w2 ! nextListeners ?w2) (fst (closures w ! h))) (arrays ?w2 ! nextListeners ?w2)]\<rparr>"
    by (simp add: unsubscribe_def Let_def)
  then show ?thesis
    using keeps_trans[OF keeps_closures keeps_mutate] by simp
qed

lemma closed_keeps: "closed_rel keeps"
  unfolding closed_rel_def
proof (intro conjI allI impI)
  fix l w show "keeps w (snd (subscribe l w))" by (rule keeps_subscribe)
next
  fix h w show "keeps w (snd (unsubscribe h w))" by (rule keeps_unsubscribe)
qed (auto simp: keeps_def frozen_def wf_world_def)

lemma notify_snapshot:
  "wf_world w \<Longrightarrow> frozen A w \<Longrightarrow>
   notify env n A i w = notify_list env n (drop i (arrays w ! A)) w"
proof (induction n arbitrary: i w)
  case 0
  show ?case by simp
next
  case (Suc n)
  let ?xs = "arrays w ! A"
  show ?case
  proof (cases "i < length ?xs")
    case False
    then show ?thesis by simp
  next
    case True
    then have dr: "drop i ?xs = ?xs ! i # drop (Suc i) ?xs"
      by (simp add: Cons_nth_drop_Suc)
    have lhs: "notify env (Suc n) A i w =
        (case call_fn env n (?xs ! i) [] w of
           None \<Rightarrow> None
         | Some (Inl e, w1) \<Rightarrow> Some (Inl e, w1)
         | Some (Inr v, w1) \<Rightarrow> notify env n A (Suc i) w1)"
      using True by simp
    have rhs: "notify_list env (Suc n) (drop i ?xs) w =
        (case call_fn env n (?xs ! i) [] w of
           None \<Rightarrow> None
         | Some (Inl e, w1) \<Rightarrow> Some (Inl e, w1)
         | Some (Inr v, w1) \<Rightarrow> notify_list env n (drop (Suc i) ?xs) w1)"
      by (subst dr) simp
    show ?thesis
    proof (cases "call_fn env n (?xs ! i) [] w")
      case None
      then show ?thesis unfolding lhs rhs by simp
    next
      case (Some rw)
      obtain r w1 where rw: "rw = (r, w1)" by (cases rw)
      have "keeps w w1"
        using call_fn_preserves[OF closed_keeps] Some rw by blast
      with Suc.prems have k: "wf_world w1" "frozen A w1" "arrays w1 ! A = ?xs"
        by (auto simp: keeps_def)
      show ?thesis
      proof (cases r)
        case (Inl e)
        with Some rw show ?thesis unfolding lhs rhs by simp
      next
        case (Inr v)
        have "notify env n A (Suc i) w1 = notify_list env n (drop (Suc i) ?xs) w1"
          using Suc.IH[OF k(1,2), of "Suc i"] k(3) by simp
        with Inr Some rw show ?thesis unfolding lhs rhs by simp
      qed
    qed
  qed
qed


section \<open>Pure reducers and quiet listeners\<close>

lemma call_fn_pure:
  "pure_reducer env r T \<Longrightarrow>
   call_fn env (Suc n) (Fun r) [s, a] w = Some (Inr (T s a), w\<lparr>trace := trace w @ [EvCall r [s, a]]\<rparr>)"
  by (simp add: pure_reducer_def)

lemma call_fn_quiet:
  "quiet env f \<Longrightarrow>
   call_fn env (Suc n) (Fun f) [] w = Some (Inr Undefined, w\<lparr>trace := trace w @ [EvCall f []]\<rparr>)"
  by (simp add: quiet_def)

lemma notify_list_quiet:
  "\<forall>f \<in> set fs. quiet env f \<Longrightarrow>
   notify_list env (Suc n + length fs) (map Fun fs @ rest) w
     = notify_list env (Suc n) rest (w\<lparr>trace := trace w @ map (\<lambda>f. EvCall f []) fs\<rparr>)"
proof (induction fs arbitrary: w)
  case Nil
  show ?case by simp
next
  case (Cons f fs)
  then have q: "quiet env f" and qs: "\<forall>f \<in> set fs. quiet env f" by simp_all
  have "notify_list env (Suc n + length (f # fs)) (map Fun (f # fs) @ rest) w
      = notify_list env (Suc n + length fs) (map Fun fs @ rest) (w\<lparr>trace := trace w @ [EvCall f []]\<rparr>)"
    using call_fn_quiet[OF q, of "n + length fs" w] by simp
  also have "\<dots> = notify_list env (Suc n) rest
      (w\<lparr>trace := trace w @ [EvCall f []], trace := trace (w\<lparr>trace := trace w @ [EvCall f []]\<rparr>) @ map (\<lambda>f. EvCall f []) fs\<rparr>)"
    using Cons.IH[OF qs] by simp
  finally show ?case by simp
qed

lemma notify_list_all_quiet:
  "\<forall>f \<in> set fs. quiet env f \<Longrightarrow>
   notify_list env (Suc n + length fs) (map Fun fs) w
     = Some (Inr Undefined, w\<lparr>trace := trace w @ map (\<lambda>f. EvCall f []) fs\<rparr>)"
  using notify_list_quiet[of fs env n "[]" w] by simp

lemma valid_actionD:
  "valid_action a \<Longrightarrow> isPlainObject a \<and>
     \<not> (case get_prop a ''type'' of Inl e \<Rightarrow> False | Inr t \<Rightarrow> typeof t = TUndefined)"
  by (cases a) (auto simp: valid_action_def typeof_undefined)

lemma dispatch_returning:
  assumes wf: "wf_world w" and idle: "\<not> isDispatching w"
    and red: "currentReducer w = Fun r" and ret: "fn_body env r [currentState w, a] = Return st"
    and va: "valid_action a"
  shows "dispatch env (Suc (Suc n)) a w =
     (case notify_list env (Suc n) (live w)
             (w\<lparr>trace := trace w @ [EvCall r [currentState w, a]],
                 currentState := st, isDispatching := False,
                 currentListeners := nextListeners w\<rparr>) of
        None \<Rightarrow> None
      | Some (Inl e, w2) \<Rightarrow> Some (Inl e, w2)
      | Some (Inr v, w2) \<Rightarrow> Some (Inr a, w2))"
proof -
  let ?w2 = "w\<lparr>trace := trace w @ [EvCall r [currentState w, a]],
                 currentState := st, isDispatching := False,
                 currentListeners := nextListeners w\<rparr>"
  have wf2: "wf_world ?w2" and fr: "frozen (nextListeners w) ?w2"
    using wf by (simp_all add: wf_world_def frozen_def)
  have c: "call_fn env (Suc n) (Fun r) [currentState w, a] (w\<lparr>isDispatching := True\<rparr>)
      = Some (Inr st, w\<lparr>isDispatching := True, trace := trace w @ [EvCall r [currentState w, a]]\<rparr>)"
    using ret by simp
  have "notify env (Suc n) (nextListeners w) 0 ?w2 = notify_list env (Suc n) (live w) ?w2"
    using notify_snapshot[OF wf2 fr, of env "Suc n" 0] by (simp add: live_def)
  then show ?thesis
    using valid_actionD[OF va] idle red c
    by (simp del: notify.simps call_fn.simps notify_list.simps)
qed

lemma dispatch_pure:
  assumes wf: "wf_world w" and idle: "\<not> isDispatching w"
    and red: "currentReducer w = Fun r" and pure: "pure_reducer env r T"
    and va: "valid_action a"
  shows "dispatch env (Suc (Suc n)) a w =
     (case notify_list env (Suc n) (live w)
             (w\<lparr>trace := trace w @ [EvCall r [currentState w, a]],
                 currentState := T (currentState w) a, isDispatching := False,
                 currentListeners := nextListeners w\<rparr>) of
        None \<Rightarrow> None
      | Some (Inl e, w2) \<Rightarrow> Some (Inl e, w2)
      | Some (Inr v, w2) \<Rightarrow> Some (Inr a, w2))"
proof -
  let ?w2 = "w\<lparr>trace := trace w @ [EvCall r [currentState w, a]],
                 currentState := T (currentState w) a, isDispatching := False,
                 currentListeners := nextListeners w\<rparr>"
  have wf2: "wf_world ?w2" and fr: "frozen (nextListeners w) ?w2"
    using wf by (simp_all add: wf_world_def frozen_def)
  have "notify env (Suc n) (nextListeners w) 0 ?w2 = notify_list env (Suc n) (live w) ?w2"
    using notify_snapshot[OF wf2 fr, of env "Suc n" 0] by (simp add: live_def)
  then show ?thesis
    using valid_actionD[OF va] idle red call_fn_pure[OF pure, of n "currentState w" a "w\<lparr>isDispatching := True\<rparr>"]
    by (simp del: notify.simps call_fn.simps notify_list.simps)
qed

lemma valid_init: "valid_action (Obj [(''type'', Str s)])"
  by (simp add: valid_action_def)

lemma dispatch_no_listeners:
  assumes wf: "wf_world w" and idle: "\<not> isDispatching w"
    and red: "currentReducer w = Fun r" and pure: "pure_reducer env r T"
    and va: "valid_action a" and em: "live w = []"
  shows "dispatch env (Suc (Suc n)) a w =
     Some (Inr a, w\<lparr>trace := trace w @ [EvCall r [currentState w, a]],
                    currentState := T (currentState w) a, isDispatching := False,
                    currentListeners := nextListeners w\<rparr>)"
  using dispatch_pure[OF wf idle red pure va, of n] em by simp

lemma createStore_pure:
  assumes pure: "pure_reducer env r T" and p: "typeof p \<noteq> TFunction"
  shows "createStore env enh (Suc (Suc (Suc n))) (Fun r) p Undefined =
     Some (Inr (store_object env,
        (initial_world (Fun r) p)\<lparr>trace := [EvCall r [p, Obj [(''type'', Str (ActionTypes_INIT (random_INIT env)))]]],
           currentState := T p (Obj [(''type'', Str (ActionTypes_INIT (random_INIT env)))]),
           isDispatching := False, currentListeners := 0\<rparr>))"
proof -
  let ?w = "initial_world (Fun r) p"
  have wf: "wf_world ?w" and idle: "\<not> isDispatching ?w" and red: "currentReducer ?w = Fun r"
    and em: "live ?w = []"
    by (simp_all add: initial_world_def wf_world_def live_def)
  have "dispatch env (Suc (Suc n)) (Obj [(''type'', Str (ActionTypes_INIT (random_INIT env)))]) ?w =
     Some (Inr (Obj [(''type'', Str (ActionTypes_INIT (random_INIT env)))]),
        ?w\<lparr>trace := trace ?w @ [EvCall r [currentState ?w, Obj [(''type'', Str (ActionTypes_INIT (random_INIT env)))]]],
                    currentState := T (currentState ?w) (Obj [(''type'', Str (ActionTypes_INIT (random_INIT env)))]), isDispatching := False,
                    currentListeners := nextListeners ?w\<rparr>)"
    by (rule dispatch_no_listeners[OF wf idle red pure valid_init em])
  moreover have "trace ?w = []" "currentState ?w = p" "nextListeners ?w = 0"
    by (simp_all add: initial_world_def)
  ultimately show ?thesis using p
    by (simp del: dispatch.simps add: Let_def)
qed

lemma dispatch_all_pure:
  assumes pure: "pure_reducer env r T" and va: "\<forall>a \<in> set actions. valid_action a"
    and wf: "wf_world w" and idle: "\<not> isDispatching w"
    and red: "currentReducer w = Fun r" and em: "live w = []"
  shows "\<exists>w'. dispatch_all (store_object env) (Suc (Suc m)) actions w = Some (map Inr actions, w')
            \<and> wf_world w' \<and> \<not> isDispatching w' \<and> currentReducer w' = Fun r \<and> live w' = []
            \<and> currentState w' = foldl T (currentState w) actions"
  using va wf idle red em
proof (induction actions arbitrary: w)
  case Nil
  then show ?case by simp
next
  case (Cons a actions)
  let ?w1 = "w\<lparr>trace := trace w @ [EvCall r [currentState w, a]],
                    currentState := T (currentState w) a, isDispatching := False,
                    currentListeners := nextListeners w\<rparr>"
  have va: "valid_action a" and vas: "\<forall>a \<in> set actions. valid_action a"
    using Cons.prems(1) by simp_all
  have d: "dispatch env (Suc (Suc m)) a w = Some (Inr a, ?w1)"
    by (rule dispatch_no_listeners[OF Cons.prems(2,3,4) pure va Cons.prems(5)])
  have p1: "wf_world ?w1" "\<not> isDispatching ?w1" "currentReducer ?w1 = Fun r" "live ?w1 = []"
    using Cons.prems(2,4,5) by (simp_all add: wf_world_def live_def)
  from Cons.IH[OF vas p1] obtain w' where
    r: "dispatch_all (store_object env) (Suc (Suc m)) actions ?w1 = Some (map Inr actions, w')"
    and q: "wf_world w'" "\<not> isDispatching w'" "currentReducer w' = Fun r" "live w' = []"
      "currentState w' = foldl T (currentState ?w1) actions" by blast
  have "dispatch_all (store_object env) (Suc (Suc m)) (a # actions) w = Some (map Inr (a # actions), w')"
    using d r by (simp add: store_object_def del: dispatch.simps)
  with q show ?case by simp
qed

lemma subscribe_all_idle:
  assumes "wf_world w" "\<not> isDispatching w" "\<forall>l \<in> set ls. typeof l = TFunction"
  shows "live (subscribe_all ls w) = live w @ ls
       \<and> closures (subscribe_all ls w) = closures w @ map (\<lambda>l. (l, True)) ls
       \<and> wf_world (subscribe_all ls w) \<and> \<not> isDispatching (subscribe_all ls w)
       \<and> currentState (subscribe_all ls w) = currentState w
       \<and> currentReducer (subscribe_all ls w) = currentReducer w
       \<and> trace (subscribe_all ls w) = trace w
       \<and> mwDispatch (subscribe_all ls w) = mwDispatch w"
  using assms
proof (induction ls arbitrary: w)
  case Nil
  then show ?case by simp
next
  case (Cons l ls)
  from subscribe_idle[OF Cons.prems(1,2), of l] Cons.prems(3) obtain w1 where
    s: "subscribe l w = (Inr (Unsub (length (closures w))), w1)"
    and p: "live w1 = live w @ [l]" "closures w1 = closures w @ [(l, True)]"
       "wf_world w1" "\<not> isDispatching w1" "currentState w1 = currentState w"
       "currentReducer w1 = currentReducer w" "trace w1 = trace w" "mwDispatch w1 = mwDispatch w"
    by auto
  have "\<forall>l \<in> set ls. typeof l = TFunction" using Cons.prems(3) by simp
  from Cons.IH[OF p(3,4) this] s p show ?case by simp
qed

lemma indexOf_first:
  "x \<in> set xs \<Longrightarrow>
     nat (indexOf xs x) < length xs \<and> xs ! nat (indexOf xs x) = x
   \<and> (\<forall>i < nat (indexOf xs x). xs ! i \<noteq> x)"
proof (induction xs)
  case Nil
  then show ?case by simp
next
  case (Cons y ys)
  show ?case
  proof (cases "y = x")
    case True
    then show ?thesis by simp
  next
    case False
    with Cons.prems have m: "x \<in> set ys" by simp
    from indexOf_in[OF m] have r: "0 \<le> indexOf ys x" by simp
    from Cons.IH[OF m] r False show ?thesis
      by (auto simp: Let_def nat_add_distrib less_Suc_eq_0_disj)
  qed
qed

lemma splice1_first:
  "x \<in> set xs \<Longrightarrow>
     splice1 (indexOf xs x) xs = take (nat (indexOf xs x)) xs @ drop (Suc (nat (indexOf xs x))) xs"
  using indexOf_in[of x xs] by (simp add: splice1_def Let_def min_def)

lemma remove1_map_Fun: "remove1 (Fun f) (map Fun xs) = map Fun (remove1 f xs)"
  by (induction xs) auto

lemma count_list_calls: "count_list (map (\<lambda>g. EvCall g []) xs) (EvCall f []) = count_list xs f"
  by (induction xs) auto

lemma count_list_remove1: "x \<in> set xs \<Longrightarrow> count_list (remove1 x xs) x = count_list xs x - 1"
  by (induction xs) auto

lemma subscribe_all_append: "subscribe_all (xs @ ys) w = subscribe_all ys (subscribe_all xs w)"
  by (induction xs arbitrary: w) auto

lemma dispatch_returns_action: "dispatch env n a w = Some (Inr v, w') \<Longrightarrow> v = a"
  by (cases n) (auto split: if_splits option.splits sum.splits prod.splits)

lemma dispatch_quiet:
  assumes wf: "wf_world w" and idle: "\<not> isDispatching w"
    and red: "currentReducer w = Fun r" and pure: "pure_reducer env r T"
    and va: "valid_action a" and lv: "live w = map Fun fs" and q: "\<forall>f \<in> set fs. quiet env f"
  shows "\<exists>w'. dispatch env (Suc (Suc (m + length fs))) a w = Some (Inr a, w')
     \<and> trace w' = trace w @ EvCall r [currentState w, a] # map (\<lambda>f. EvCall f []) fs
     \<and> currentState w' = T (currentState w) a
     \<and> wf_world w' \<and> \<not> isDispatching w' \<and> currentReducer w' = Fun r
     \<and> live w' = live w \<and> closures w' = closures w \<and> arrays w' = arrays w
     \<and> nextListeners w' = nextListeners w \<and> currentListeners w' = nextListeners w
     \<and> mwDispatch w' = mwDispatch w"
proof -
  let ?w2 = "w\<lparr>trace := trace w @ [EvCall r [currentState w, a]],
                 currentState := T (currentState w) a, isDispatching := False,
                 currentListeners := nextListeners w\<rparr>"
  have "notify_list env (Suc m + length fs) (map Fun fs) ?w2
      = Some (Inr Undefined, ?w2\<lparr>trace := trace ?w2 @ map (\<lambda>f. EvCall f []) fs\<rparr>)"
    by (rule notify_list_all_quiet[OF q])
  then have "dispatch env (Suc (Suc (m + length fs))) a w
      = Some (Inr a, ?w2\<lparr>trace := trace ?w2 @ map (\<lambda>f. EvCall f []) fs\<rparr>)"
    using dispatch_pure[OF wf idle red pure va, of "m + length fs"] lv by simp
  then show ?thesis using wf red
    by (simp add: wf_world_def live_def del: dispatch.simps)
qed

section \<open>The listener that unsubscribes itself\<close>

lemma call_unsubscribe_then_subscribe:
  assumes wf: "wf_world w" and idle: "\<not> isDispatching w"
    and h: "h < length (closures w)" and ch: "closures w ! h = (Fun l2, True)"
    and body: "fn_body env l2 [] = unsubscribe_then_subscribe h l4"
  shows "\<exists>w'. call_fn env (Suc (Suc (Suc n))) (Fun l2) [] w = Some (Inr Undefined, w')
      \<and> live w' = splice1 (indexOf (live w) (Fun l2)) (live w) @ [Fun l4]
      \<and> wf_world w' \<and> \<not> isDispatching w'
      \<and> trace w' = trace w @ [EvCall l2 []]
      \<and> currentState w' = currentState w \<and> currentReducer w' = currentReducer w
      \<and> mwDispatch w' = mwDispatch w"
proof -
  let ?w0 = "w\<lparr>trace := trace w @ [EvCall l2 []]\<rparr>"
  have p0: "wf_world ?w0" "\<not> isDispatching ?w0" "h < length (closures ?w0)"
    "closures ?w0 ! h = (Fun l2, True)"
    using wf idle h ch by (simp_all add: wf_world_def)
  from unsubscribe_idle[OF p0] obtain w1 where
    u: "unsubscribe h ?w0 = (Inr Undefined, w1)"
    and p1: "live w1 = splice1 (indexOf (live ?w0) (Fun l2)) (live ?w0)"
      "wf_world w1" "\<not> isDispatching w1" "currentState w1 = currentState ?w0"
      "currentReducer w1 = currentReducer ?w0" "trace w1 = trace ?w0" "mwDispatch w1 = mwDispatch ?w0"
    by blast
  have "typeof (Fun l4) = TFunction" by simp
  from subscribe_idle[OF p1(2,3) this] obtain w2 where
    s: "subscribe (Fun l4) w1 = (Inr (Unsub (length (closures w1))), w2)"
    and p2: "live w2 = live w1 @ [Fun l4]" "wf_world w2" "\<not> isDispatching w2"
      "currentState w2 = currentState w1" "currentReducer w2 = currentReducer w1"
      "trace w2 = trace w1" "mwDispatch w2 = mwDispatch w1"
    by blast
  have "call_fn env (Suc (Suc (Suc n))) (Fun l2) [] w = Some (Inr Undefined, w2)"
    using body u s by (simp add: unsubscribe_then_subscribe_def)
  moreover have "live ?w0 = live w" by (simp add: live_def)
  ultimately show ?thesis using p1 p2 by simp
qed

lemma notify_list_around:
  assumes wf: "wf_world w" and idle: "\<not> isDispatching w"
    and lv: "live w = map Fun (pre @ l2 # post)"
    and h: "h < length (closures w)" and ch: "closures w ! h = (Fun l2, True)"
    and body: "fn_body env l2 [] = unsubscribe_then_subscribe h l4"
    and qp: "\<forall>g \<in> set pre. quiet env g" and qq: "\<forall>g \<in> set post. quiet env g"
    and nl: "l2 \<notin> set pre"
  shows "\<exists>w'. notify_list env (Suc (Suc (Suc (Suc (Suc (m + length pre + length post))))))
                 (map Fun (pre @ l2 # post)) w = Some (Inr Undefined, w')
      \<and> live w' = map Fun (pre @ post @ [l4])
      \<and> wf_world w' \<and> \<not> isDispatching w'
      \<and> trace w' = trace w @ map (\<lambda>g. EvCall g []) (pre @ l2 # post)
      \<and> currentState w' = currentState w \<and> currentReducer w' = currentReducer w
      \<and> mwDispatch w' = mwDispatch w"
proof -
  let ?ev = "\<lambda>g. EvCall g []"
  let ?wa = "w\<lparr>trace := trace w @ map ?ev pre\<rparr>"
  have a: "notify_list env (Suc (Suc (Suc (Suc (Suc (m + length pre + length post))))))
             (map Fun (pre @ l2 # post)) w
         = notify_list env (Suc (Suc (Suc (Suc (Suc (m + length post)))))) (Fun l2 # map Fun post) ?wa"
    using notify_list_quiet[OF qp, of "Suc (Suc (Suc (Suc (m + length post))))" "Fun l2 # map Fun post" w]
    by (simp add: add.commute add.left_commute del: notify_list.simps)
  have pa: "wf_world ?wa" "\<not> isDispatching ?wa" "h < length (closures ?wa)"
    "closures ?wa ! h = (Fun l2, True)"
    using wf idle h ch by (simp_all add: wf_world_def)
  from call_unsubscribe_then_subscribe[OF pa body, of "Suc (m + length post)"] obtain wb where
    c: "call_fn env (Suc (Suc (Suc (Suc (m + length post))))) (Fun l2) [] ?wa = Some (Inr Undefined, wb)"
    and pb: "live wb = splice1 (indexOf (live ?wa) (Fun l2)) (live ?wa) @ [Fun l4]"
      "wf_world wb" "\<not> isDispatching wb" "trace wb = trace ?wa @ [EvCall l2 []]"
      "currentState wb = currentState ?wa" "currentReducer wb = currentReducer ?wa"
      "mwDispatch wb = mwDispatch ?wa"
    by blast
  have b: "notify_list env (Suc (Suc (Suc (Suc (Suc (m + length post)))))) (Fun l2 # map Fun post) ?wa
         = notify_list env (Suc (Suc (Suc (Suc (m + length post))))) (map Fun post) wb"
    using c by (simp del: call_fn.simps)
  have d: "notify_list env (Suc (Suc (Suc (Suc (m + length post))))) (map Fun post) wb
         = Some (Inr Undefined, wb\<lparr>trace := trace wb @ map ?ev post\<rparr>)"
    using notify_list_all_quiet[OF qq, of "Suc (Suc (Suc m))" wb] by (simp del: notify_list.simps)
  have lva: "live ?wa = map Fun (pre @ l2 # post)" using lv by (simp add: live_def)
  have notin: "Fun l2 \<notin> set (map Fun pre)" using nl by auto
  have "splice1 (indexOf (live ?wa) (Fun l2)) (live ?wa) = remove1 (Fun l2) (live ?wa)"
    by (rule splice1_indexOf) (simp add: lva)
  also have "\<dots> = map Fun (pre @ post)"
    using notin by (simp add: lva remove1_append)
  finally have lb: "live wb = map Fun (pre @ post @ [l4])" using pb(1) by simp
  let ?w' = "wb\<lparr>trace := trace wb @ map ?ev post\<rparr>"
  have "live ?w' = map Fun (pre @ post @ [l4])" "wf_world ?w'" "\<not> isDispatching ?w'"
    "trace ?w' = trace w @ map ?ev (pre @ l2 # post)"
    "currentState ?w' = currentState w" "currentReducer ?w' = currentReducer w"
    "mwDispatch ?w' = mwDispatch w"
    using lb pb by (simp_all add: live_def wf_world_def)
  with a b d show ?thesis by (simp del: notify_list.simps)
qed

lemma subscribe_leaves_snapshot:
  assumes "wf_world w"
  shows "currentListeners (snd (subscribe l w)) = currentListeners w
       \<and> arrays (snd (subscribe l w)) ! currentListeners w = arrays w ! currentListeners w"
proof -
  have "frozen (currentListeners w) w" using assms by (simp add: frozen_def wf_world_def)
  with keeps_subscribe[of w l] assms
  have "arrays (snd (subscribe l w)) ! currentListeners w = arrays w ! currentListeners w"
    by (simp add: keeps_def)
  moreover have "currentListeners (snd (subscribe l w)) = currentListeners w"
    by (simp add: subscribe_def ensureCanMutateNextListeners_def Let_def)
  ultimately show ?thesis by simp
qed

lemma unsubscribe_leaves_snapshot:
  assumes "wf_world w"
  shows "currentListeners (snd (unsubscribe h w)) = currentListeners w
       \<and> arrays (snd (unsubscribe h w)) ! currentListeners w = arrays w ! currentListeners w"
proof -
  have "frozen (currentListeners w) w" using assms by (simp add: frozen_def wf_world_def)
  with keeps_unsubscribe[of w h] assms
  have "arrays (snd (unsubscribe h w)) ! currentListeners w = arrays w ! currentListeners w"
    by (simp add: keeps_def)
  moreover have "currentListeners (snd (unsubscribe h w)) = currentListeners w"
    by (simp add: unsubscribe_def ensureCanMutateNextListeners_def Let_def)
  ultimately show ?thesis by simp
qed

lemma not_quiet_unsubscribe_then_subscribe:
  "fn_body env l2 [] = unsubscribe_then_subscribe h l4 \<Longrightarrow> \<not> quiet env l2"
  by (simp add: quiet_def unsubscribe_then_subscribe_def)

section \<open>Calls that are refused\<close>

lemma run_force:
  assumes inv: "\<And>c w r w'. S w \<Longrightarrow> api c w = Some (r, w') \<Longrightarrow> S w'"
    and forced: "\<And>c e w. S w \<Longrightarrow> g c = Some e \<Longrightarrow> api c w = Some (Inl e, w)"
  shows "S w \<Longrightarrow> run api (force g p) w = run api p w"
proof (induction p arbitrary: w)
  case (Return v)
  show ?case by simp
next
  case (Throw e)
  show ?case by simp
next
  case (Call c k)
  show ?case
  proof (cases "g c")
    case (Some e)
    have "run api (Call c k) w = run api (k (Inl e)) w"
      using forced[OF Call.prems Some] by simp
    moreover have "run api (force g (Call c k)) w = run api (force g (k (Inl e))) w"
      using Some by simp
    moreover have "run api (force g (k (Inl e))) w = run api (k (Inl e)) w"
      by (rule Call.IH[OF rangeI Call.prems])
    ultimately show ?thesis by simp
  next
    case None
    show ?thesis
    proof (cases "api c w")
      case None
      with \<open>g c = None\<close> show ?thesis by simp
    next
      case (Some rw)
      obtain r w' where rw: "rw = (r, w')" by (cases rw)
      have "S w'" using inv[OF Call.prems] Some rw by simp
      then have "run api (force g (k r)) w' = run api (k r) w'"
        by (rule Call.IH[OF rangeI])
      with Some rw \<open>g c = None\<close> show ?thesis by simp
    qed
  qed
qed

lemma reducing_forced:
  assumes "isDispatching w" "while_reducing c = Some e"
  shows "call_cmd env (Suc (Suc n)) c w = Some (Inl e, w)"
proof (cases c)
  case GetState
  with assms show ?thesis by (simp add: while_reducing_def getState_def)
next
  case (Subscribe l)
  with assms show ?thesis by (auto simp: while_reducing_def subscribe_def split: if_splits)
next
  case (Dispatch a)
  with assms have "valid_action a" "e = ReducersMayNotDispatch"
    by (auto simp: while_reducing_def split: if_splits)
  with Dispatch assms(1) valid_actionD[of a] show ?thesis by simp
qed (use assms in \<open>simp_all add: while_reducing_def\<close>)

lemma run_while_reducing:
  "isDispatching w \<Longrightarrow>
   run (call_cmd env (Suc (Suc n))) (force while_reducing p) w = run (call_cmd env (Suc (Suc n))) p w"
proof (rule run_force[where S = isDispatching])
  fix c r and w w' :: world
  assume "isDispatching w" "call_cmd env (Suc (Suc n)) c w = Some (r, w')"
  with call_cmd_preserves[OF closed_same_flag] show "isDispatching w'"
    by (fastforce simp: same_flag_def)
next
  fix c e and w :: world
  assume "isDispatching w" "while_reducing c = Some e"
  then show "call_cmd env (Suc (Suc n)) c w = Some (Inl e, w)" by (rule reducing_forced)
qed

lemma constructing_forced:
  assumes "mwDispatch w = Constructing" "while_constructing c = Some e"
  shows "call_cmd env (Suc n) c w = Some (Inl e, w)"
  using assms by (cases c) (simp_all add: while_constructing_def)

lemma run_while_constructing:
  "mwDispatch w = Constructing \<Longrightarrow>
   run (call_cmd env (Suc n)) (force while_constructing p) w = run (call_cmd env (Suc n)) p w"
proof (rule run_force[where S = "\<lambda>w. mwDispatch w = Constructing"])
  fix c r and w w' :: world
  assume "mwDispatch w = Constructing" "call_cmd env (Suc n) c w = Some (r, w')"
  with call_cmd_preserves[OF closed_same_cell] show "mwDispatch w' = Constructing"
    by (fastforce simp: same_cell_def)
next
  fix c e and w :: world
  assume "mwDispatch w = Constructing" "while_constructing c = Some e"
  then show "call_cmd env (Suc n) c w = Some (Inl e, w)" by (rule constructing_forced)
qed

lemma dispatch_while_reducing:
  "isDispatching w \<Longrightarrow> valid_action a \<Longrightarrow>
   dispatch env (Suc n) a w = Some (Inl ReducersMayNotDispatch, w)"
  using valid_actionD[of a] by simp

lemma dispatch_leaves_idle:
  "\<not> isDispatching w \<Longrightarrow> dispatch env k a w = Some (r, w') \<Longrightarrow> \<not> isDispatching w'"
  using dispatch_preserves[OF closed_same_flag, of env k a w r w'] by (simp add: same_flag_def)

lemma dispatch_forced_reducer:
  assumes idle: "\<not> isDispatching w" and va: "valid_action a" and red: "currentReducer w = Fun g"
  shows "dispatch env (Suc (Suc (Suc (Suc n)))) a w =
     (case run (call_cmd env (Suc (Suc n)))
             (force while_reducing (fn_body env g [currentState w, a]))
             (w\<lparr>isDispatching := True, trace := trace w @ [EvCall g [currentState w, a]]\<rparr>) of
        None \<Rightarrow> None
      | Some (Inl e, w1) \<Rightarrow> Some (Inl e, w1\<lparr>isDispatching := False\<rparr>)
      | Some (Inr st, w1) \<Rightarrow>
          (case notify env (Suc (Suc (Suc n))) (nextListeners w1) 0
                  (w1\<lparr>currentState := st, isDispatching := False,
                       currentListeners := nextListeners w1\<rparr>) of
             None \<Rightarrow> None
           | Some (Inl e, w2) \<Rightarrow> Some (Inl e, w2)
           | Some (Inr v, w2) \<Rightarrow> Some (Inr a, w2)))"
proof -
  let ?w1 = "w\<lparr>isDispatching := True, trace := trace w @ [EvCall g [currentState w, a]]\<rparr>"
  have "isDispatching ?w1" by simp
  from run_while_reducing[OF this, of env n "fn_body env g [currentState w, a]"]
  show ?thesis
    using valid_actionD[OF va] idle red
    by (simp del: notify.simps call_cmd.simps)
qed

section \<open>Middleware\<close>

lemma run_lift:
  "run (\<lambda>c. case c of Next a \<Rightarrow> nx a | Cmd c' \<Rightarrow> api c') (lift p) w = run api p w"
  by (induction p arbitrary: w) (auto split: option.splits)

lemma constructing_sel:
  "mw_id (constructing m) = mw_id m"
  "mw_setup (constructing m) = force while_constructing (mw_setup m)"
  by (simp_all add: constructing_def)

lemma map_middlewares_constructing:
  "mwDispatch w = Constructing \<Longrightarrow>
   map_middlewares (call_cmd env (Suc k)) (map constructing ms) w
     = map_middlewares (call_cmd env (Suc k)) ms w"
proof (induction ms arbitrary: w)
  case Nil
  show ?case by simp
next
  case (Cons m ms)
  have f: "run (call_cmd env (Suc k)) (force while_constructing (mw_setup m)) w
         = run (call_cmd env (Suc k)) (mw_setup m) w"
    by (rule run_while_constructing[OF Cons.prems])
  show ?case
  proof (cases "run (call_cmd env (Suc k)) (mw_setup m) w")
    case None
    with f show ?thesis by (simp add: constructing_sel del: call_cmd.simps)
  next
    case (Some rw)
    obtain r w1 where rw: "rw = (r, w1)" by (cases rw)
    have "preserves same_cell (run (call_cmd env (Suc k)) (mw_setup m))"
      by (rule run_preserves[OF closed_same_cell]) (auto intro: preservesI call_cmd_preserves[OF closed_same_cell])
    from preservesD[OF this] Some rw have "mwDispatch w1 = Constructing"
      using Cons.prems by (fastforce simp: same_cell_def)
    from Cons.IH[OF this] f Some rw show ?thesis
      by (cases r) (auto simp: constructing_sel simp del: call_cmd.simps split: option.splits sum.splits prod.splits)
  qed
qed

lemma createStore_base_object:
  assumes "typeof p \<noteq> TFunction" "createStore env enh j r p Undefined = Some (Inr (store, w))"
  shows "store = store_object env"
  using assms
  by (cases j) (auto simp: Let_def split: if_splits option.splits sum.splits prod.splits)

section \<open>The example programs\<close>

lemma ex_env_pure: "pure_reducer ex_env 0 count"
  by (simp add: pure_reducer_def ex_env_def)

lemma valid_act_inc: "valid_action act_inc"
  by (simp add: valid_action_def act_inc_def)

lemma initial_world_props:
  "wf_world (initial_world r p)" "\<not> isDispatching (initial_world r p)"
  "currentReducer (initial_world r p) = r" "live (initial_world r p) = []"
  "closures (initial_world r p) = []" "currentState (initial_world r p) = p"
  by (simp_all add: initial_world_def wf_world_def live_def)

lemma ex_env_quiet: "0 < f \<Longrightarrow> quiet ex_env f"
  by (simp add: quiet_def ex_env_def)

lemma ex2_env_pure: "pure_reducer ex2_env 0 count"
  by (simp add: pure_reducer_def ex2_env_def)

lemma ex2_env_quiet: "quiet ex2_env 1" "quiet ex2_env 3" "quiet ex2_env 4"
  by (simp_all add: quiet_def ex2_env_def)

lemma createStore_ex_env:
  "createStore ex_env enh (Suc (Suc (Suc n))) (Fun 0) Undefined Undefined
     = Some (Inr (store_object ex_env, ex_world))"
proof -
  have "count Undefined (Obj [(''type'', Str (ActionTypes_INIT (random_INIT ex_env)))]) = Number 0"
    by (simp add: count_def ActionTypes_INIT_def)
  with createStore_pure[OF ex_env_pure, of Undefined enh n] show ?thesis
    by (simp add: ex_world_def del: createStore.simps)
qed

lemma ex_world_props:
  "wf_world ex_world" "\<not> isDispatching ex_world" "currentReducer ex_world = Fun 0"
  "live ex_world = []" "currentState ex_world = Number 0"
  by (simp_all add: ex_world_def initial_world_def wf_world_def live_def)

lemma map_middlewares_ex:
  "map_middlewares (call_cmd ex_env 2) [mw_swallow, mw_pass] (ex_world\<lparr>mwDispatch := Constructing\<rparr>)
     = Some (Inr [(1, swallow_probe), (2, pass_on)], ex_world\<lparr>mwDispatch := Constructing\<rparr>)"
  by (simp add: mw_swallow_def mw_pass_def)

lemma valid_boom: "valid_action boom"
  by (simp add: valid_action_def boom_def)

lemma busy_world_props:
  "isDispatching busy_world" "0 < length (closures busy_world)" "snd (closures busy_world ! 0)"
  by (simp_all add: busy_world_def subscribe_def initial_world_def Let_def
      ensureCanMutateNextListeners_def)

section \<open>Claims\<close>

text \<open>
  Claim C1. A store built from the pure reducer \<open>T\<close> with no initial state and no
  enhancer answers \<open>getState\<close> with \<open>T(undefined, INIT)\<close>; after each dispatch of a
  sequence of valid actions \<open>getState\<close> answers with the left fold of \<open>T\<close> over the
  actions dispatched so far, from that first state; and a dispatch that returns, on any
  store, returns the action it was given.
\<close>

theorem dispatch_folds_reducer:
  assumes pure: "pure_reducer env r T" and va: "\<forall>a \<in> set actions. valid_action a"
  shows "\<exists>store w0.
           createStore env enh (Suc (Suc (Suc n))) (Fun r) Undefined Undefined = Some (Inr (store, w0))
         \<and> obj_getState store w0
             = (Inr (T Undefined (Obj [(''type'', Str (ActionTypes_INIT (random_INIT env)))])), w0)
         \<and> (\<forall>k \<le> length actions. \<exists>wk.
               dispatch_all store (Suc (Suc m)) (take k actions) w0 = Some (map Inr (take k actions), wk)
             \<and> obj_getState store wk = (Inr (foldl T (currentState w0) (take k actions)), wk))
         \<and> (\<forall>env' j a v x v'. dispatch env' j a v = Some (Inr x, v') \<longrightarrow> x = a)"
proof -
  let ?i = "Obj [(''type'', Str (ActionTypes_INIT (random_INIT env)))]"
  let ?w0 = "(initial_world (Fun r) Undefined)\<lparr>trace := [EvCall r [Undefined, ?i]],
           currentState := T Undefined ?i, isDispatching := False, currentListeners := 0\<rparr>"
  have c: "createStore env enh (Suc (Suc (Suc n))) (Fun r) Undefined Undefined = Some (Inr (store_object env, ?w0))"
    by (rule createStore_pure[OF pure]) simp
  have p0: "wf_world ?w0" "\<not> isDispatching ?w0" "currentReducer ?w0 = Fun r" "live ?w0 = []"
    by (simp_all add: initial_world_def wf_world_def live_def)
  have g: "obj_getState (store_object env) ?w0 = (Inr (T Undefined ?i), ?w0)"
    by (simp add: store_object_def getState_def)
  have "\<exists>wk. dispatch_all (store_object env) (Suc (Suc m)) (take k actions) ?w0 = Some (map Inr (take k actions), wk)
             \<and> obj_getState (store_object env) wk = (Inr (foldl T (currentState ?w0) (take k actions)), wk)" for k
  proof -
    have "\<forall>a \<in> set (take k actions). valid_action a"
      using va by (meson in_set_takeD)
    from dispatch_all_pure[OF pure this p0, of m] obtain wk where
      "dispatch_all (store_object env) (Suc (Suc m)) (take k actions) ?w0 = Some (map Inr (take k actions), wk)"
      "\<not> isDispatching wk" "currentState wk = foldl T (currentState ?w0) (take k actions)" by blast
    then show ?thesis by (auto simp: store_object_def getState_def)
  qed
  moreover have "\<forall>env' j a v x v'. dispatch env' j a v = Some (Inr x, v') \<longrightarrow> x = a"
    using dispatch_returns_action by blast
  ultimately show ?thesis using c g by blast
qed

theorem dispatch_folds_reducer_witness:
  "pure_reducer ex_env 0 count \<and> valid_action act_inc
   \<and> (\<exists>store w0.
         createStore ex_env (\<lambda>f c. c) (Suc (Suc (Suc 0))) (Fun 0) Undefined Undefined
           = Some (Inr (store, w0))
       \<and> obj_getState store w0 = (Inr (Number 0), w0)
       \<and> (\<exists>w3. dispatch_all store (Suc (Suc 0)) [act_inc, act_inc, act_inc] w0
                  = Some ([Inr act_inc, Inr act_inc, Inr act_inc], w3)
              \<and> obj_getState store w3 = (Inr (Number 3), w3)))"
proof -
  have v: "\<forall>a \<in> set [act_inc, act_inc, act_inc]. valid_action a"
    using valid_act_inc by simp
  from dispatch_folds_reducer[OF ex_env_pure v, of "\<lambda>f c. c" 0 0]
  obtain store w0 where
    c: "createStore ex_env (\<lambda>f c. c) (Suc (Suc (Suc 0))) (Fun 0) Undefined Undefined
          = Some (Inr (store, w0))"
    and g: "obj_getState store w0
          = (Inr (count Undefined (Obj [(''type'', Str (ActionTypes_INIT (random_INIT ex_env)))])), w0)"
    and d: "\<forall>k \<le> length [act_inc, act_inc, act_inc]. \<exists>wk.
               dispatch_all store (Suc (Suc 0)) (take k [act_inc, act_inc, act_inc]) w0
                 = Some (map Inr (take k [act_inc, act_inc, act_inc]), wk)
             \<and> obj_getState store wk
                 = (Inr (foldl count (currentState w0) (take k [act_inc, act_inc, act_inc])), wk)"
    by blast
  from createStore_pure[OF ex_env_pure, of Undefined "\<lambda>f c. c" 0] c
  have s0: "currentState w0 = count Undefined (Obj [(''type'', Str (ActionTypes_INIT (random_INIT ex_env)))])"
    by auto
  have z: "count Undefined (Obj [(''type'', Str (ActionTypes_INIT (random_INIT ex_env)))]) = Number 0"
    by (simp add: count_def ActionTypes_INIT_def)
  from d[rule_format, of 3] obtain w3 where
    "dispatch_all store (Suc (Suc 0)) [act_inc, act_inc, act_inc] w0
       = Some ([Inr act_inc, Inr act_inc, Inr act_inc], w3)"
    "obj_getState store w3 = (Inr (foldl count (currentState w0) [act_inc, act_inc, act_inc]), w3)"
    by auto
  moreover have "foldl count (currentState w0) [act_inc, act_inc, act_inc] = Number 3"
    using s0 z by (simp add: count_def act_inc_def)
  ultimately show ?thesis using ex_env_pure valid_act_inc c g z by auto
qed

text \<open>
  Claim C2. Listeners \<open>pre\<close>, \<open>l2\<close>, \<open>post\<close> are subscribed in this order, and \<open>l2\<close>
  unsubscribes itself and subscribes \<open>l4\<close> when it is called. The first dispatch calls
  every one of them once, in the order of subscription, and not \<open>l4\<close>; the next dispatch
  calls \<open>pre\<close>, \<open>post\<close> and \<open>l4\<close>, and not \<open>l2\<close>. In general the loop of \<open>dispatch\<close> over the
  array is the loop over the list the array held when the loop began, whatever the
  listeners do, and \<open>subscribe\<close> and \<open>unsubscribe\<close> leave the array \<open>currentListeners\<close>
  points at as it is.
\<close>

theorem listener_snapshot_law:
  assumes wf: "wf_world w" and idle: "\<not> isDispatching w"
    and red: "currentReducer w = Fun r" and pure: "pure_reducer env r T"
    and lv: "live w = []"
    and body: "fn_body env l2 [] = unsubscribe_then_subscribe (length (closures w) + length pre) l4"
    and qp: "\<forall>g \<in> set pre. quiet env g" and qq: "\<forall>g \<in> set post. quiet env g"
    and q4: "quiet env l4"
    and va1: "valid_action a1" and va2: "valid_action a2"
  shows "(\<exists>w1 w2 w3.
        w1 = subscribe_all (map Fun (pre @ l2 # post)) w
      \<and> dispatch env (Suc (Suc (Suc (Suc (Suc (Suc (m + length pre + length post))))))) a1 w1
          = Some (Inr a1, w2)
      \<and> trace w2 = trace w1 @ EvCall r [currentState w1, a1]
                      # map (\<lambda>g. EvCall g []) (pre @ l2 # post)
      \<and> dispatch env (Suc (Suc (Suc (Suc (Suc (Suc (m + length pre + length post))))))) a2 w2
          = Some (Inr a2, w3)
      \<and> trace w3 = trace w2 @ EvCall r [currentState w2, a2]
                      # map (\<lambda>g. EvCall g []) (pre @ post @ [l4])
      \<and> EvCall l2 [] \<notin> set (map (\<lambda>g. EvCall g []) (pre @ post @ [l4])))
    \<and> (\<forall>env' k A i w'. wf_world w' \<and> frozen A w' \<longrightarrow>
          notify env' k A i w' = notify_list env' k (drop i (arrays w' ! A)) w')
    \<and> (\<forall>l w'. wf_world w' \<longrightarrow>
          currentListeners (snd (subscribe l w')) = currentListeners w'
        \<and> arrays (snd (subscribe l w')) ! currentListeners w' = arrays w' ! currentListeners w')
    \<and> (\<forall>h w'. wf_world w' \<longrightarrow>
          currentListeners (snd (unsubscribe h w')) = currentListeners w'
        \<and> arrays (snd (unsubscribe h w')) ! currentListeners w' = arrays w' ! currentListeners w')"
proof -
  let ?ev = "\<lambda>g. EvCall g []"
  let ?N = "Suc (Suc (Suc (Suc (m + length pre + length post))))"
  let ?w1 = "subscribe_all (map Fun (pre @ l2 # post)) w"
  have nq: "\<not> quiet env l2" using body by (rule not_quiet_unsubscribe_then_subscribe)
  then have nl: "l2 \<notin> set pre" and nl': "l2 \<notin> set (pre @ post @ [l4])"
    using qp qq q4 by auto
  have "\<forall>l \<in> set (map Fun (pre @ l2 # post)). typeof l = TFunction" by auto
  from subscribe_all_idle[OF wf idle this] lv red have
    p1: "live ?w1 = map Fun (pre @ l2 # post)"
      "closures ?w1 = closures w @ map (\<lambda>l. (l, True)) (map Fun (pre @ l2 # post))"
      "wf_world ?w1" "\<not> isDispatching ?w1" "currentReducer ?w1 = Fun r"
    by simp_all
  let ?h = "length (closures w) + length pre"
  let ?wr = "?w1\<lparr>trace := trace ?w1 @ [EvCall r [currentState ?w1, a1]],
                 currentState := T (currentState ?w1) a1, isDispatching := False,
                 currentListeners := nextListeners ?w1\<rparr>"
  have pr: "wf_world ?wr" "\<not> isDispatching ?wr" "live ?wr = map Fun (pre @ l2 # post)"
    "?h < length (closures ?wr)" "closures ?wr ! ?h = (Fun l2, True)"
    using p1 by (simp_all add: wf_world_def live_def nth_append)
  from notify_list_around[OF pr body qp qq nl, of m] obtain w2 where
    n2: "notify_list env (Suc ?N) (map Fun (pre @ l2 # post)) ?wr = Some (Inr Undefined, w2)"
    and p2: "live w2 = map Fun (pre @ post @ [l4])" "wf_world w2" "\<not> isDispatching w2"
      "trace w2 = trace ?wr @ map ?ev (pre @ l2 # post)"
      "currentState w2 = currentState ?wr" "currentReducer w2 = currentReducer ?wr"
    by blast
  have d2: "dispatch env (Suc (Suc ?N)) a1 ?w1 = Some (Inr a1, w2)"
    using dispatch_pure[OF p1(3,4,5) pure va1, of ?N] p1(1) n2
    by (simp del: dispatch.simps notify_list.simps)
  have t2: "trace w2 = trace ?w1 @ EvCall r [currentState ?w1, a1] # map ?ev (pre @ l2 # post)"
    using p2(4) by simp
  have r2: "currentReducer w2 = Fun r" using p2(6) p1(5) by simp
  have q3: "\<forall>g \<in> set (pre @ post @ [l4]). quiet env g" using qp qq q4 by auto
  from dispatch_quiet[OF p2(2,3) r2 pure va2 p2(1) q3, of "Suc (Suc (Suc m))"] obtain w3 where
    d3: "dispatch env (Suc (Suc ?N)) a2 w2 = Some (Inr a2, w3)"
    and t3: "trace w3 = trace w2 @ EvCall r [currentState w2, a2] # map ?ev (pre @ post @ [l4])"
    by (auto simp: add.assoc)
  have e: "EvCall l2 [] \<notin> set (map ?ev (pre @ post @ [l4]))" using nl' by auto
  have first: "\<exists>w1 w2 w3.
        w1 = subscribe_all (map Fun (pre @ l2 # post)) w
      \<and> dispatch env (Suc (Suc ?N)) a1 w1 = Some (Inr a1, w2)
      \<and> trace w2 = trace w1 @ EvCall r [currentState w1, a1] # map ?ev (pre @ l2 # post)
      \<and> dispatch env (Suc (Suc ?N)) a2 w2 = Some (Inr a2, w3)
      \<and> trace w3 = trace w2 @ EvCall r [currentState w2, a2] # map ?ev (pre @ post @ [l4])
      \<and> EvCall l2 [] \<notin> set (map ?ev (pre @ post @ [l4]))"
    using d2 t2 d3 t3 e by blast
  have second: "\<forall>env' k A i w'. wf_world w' \<and> frozen A w' \<longrightarrow>
          notify env' k A i w' = notify_list env' k (drop i (arrays w' ! A)) w'"
    using notify_snapshot by blast
  have third: "\<forall>l w'. wf_world w' \<longrightarrow>
          currentListeners (snd (subscribe l w')) = currentListeners w'
        \<and> arrays (snd (subscribe l w')) ! currentListeners w' = arrays w' ! currentListeners w'"
    using subscribe_leaves_snapshot by blast
  have fourth: "\<forall>h w'. wf_world w' \<longrightarrow>
          currentListeners (snd (unsubscribe h w')) = currentListeners w'
        \<and> arrays (snd (unsubscribe h w')) ! currentListeners w' = arrays w' ! currentListeners w'"
    using unsubscribe_leaves_snapshot by blast
  from first second third fourth show ?thesis by (intro conjI)
qed

theorem listener_snapshot_law_witness:
  "wf_world (initial_world (Fun 0) Undefined)
   \<and> \<not> isDispatching (initial_world (Fun 0) Undefined)
   \<and> currentReducer (initial_world (Fun 0) Undefined) = Fun 0
   \<and> pure_reducer ex2_env 0 count
   \<and> live (initial_world (Fun 0) Undefined) = []
   \<and> fn_body ex2_env 2 []
        = unsubscribe_then_subscribe (length (closures (initial_world (Fun 0) Undefined)) + length [1::nat]) 4
   \<and> quiet ex2_env 1 \<and> quiet ex2_env 3 \<and> quiet ex2_env 4 \<and> valid_action act_inc
   \<and> (\<exists>w1 w2 w3.
        w1 = subscribe_all (map Fun ([1] @ 2 # [3])) (initial_world (Fun 0) Undefined)
      \<and> dispatch ex2_env (Suc (Suc (Suc (Suc (Suc (Suc (0 + length [1::nat] + length [3::nat])))))))
            act_inc w1 = Some (Inr act_inc, w2)
      \<and> trace w2 = trace w1 @ EvCall 0 [currentState w1, act_inc]
                      # map (\<lambda>g. EvCall g []) ([1] @ 2 # [3])
      \<and> dispatch ex2_env (Suc (Suc (Suc (Suc (Suc (Suc (0 + length [1::nat] + length [3::nat])))))))
            act_inc w2 = Some (Inr act_inc, w3)
      \<and> trace w3 = trace w2 @ EvCall 0 [currentState w2, act_inc]
                      # map (\<lambda>g. EvCall g []) ([1] @ [3] @ [4])
      \<and> EvCall 2 [] \<notin> set (map (\<lambda>g. EvCall g []) ([1] @ [3] @ [4])))
   \<and> frozen 0 (initial_world (Fun 0) Undefined)
   \<and> notify ex2_env 2 0 0 (initial_world (Fun 0) Undefined)
        = notify_list ex2_env 2 (drop 0 (arrays (initial_world (Fun 0) Undefined) ! 0))
            (initial_world (Fun 0) Undefined)
   \<and> currentListeners (snd (subscribe (Fun 1) (initial_world (Fun 0) Undefined)))
        = currentListeners (initial_world (Fun 0) Undefined)
   \<and> arrays (snd (subscribe (Fun 1) (initial_world (Fun 0) Undefined)))
          ! currentListeners (initial_world (Fun 0) Undefined)
        = arrays (initial_world (Fun 0) Undefined) ! currentListeners (initial_world (Fun 0) Undefined)
   \<and> currentListeners (snd (unsubscribe 0 (initial_world (Fun 0) Undefined)))
        = currentListeners (initial_world (Fun 0) Undefined)
   \<and> arrays (snd (unsubscribe 0 (initial_world (Fun 0) Undefined)))
          ! currentListeners (initial_world (Fun 0) Undefined)
        = arrays (initial_world (Fun 0) Undefined) ! currentListeners (initial_world (Fun 0) Undefined)"
proof -
  let ?w = "initial_world (Fun 0) Undefined"
  have body: "fn_body ex2_env 2 [] = unsubscribe_then_subscribe (length (closures ?w) + length [1::nat]) 4"
    by (simp add: ex2_env_def initial_world_props)
  have qp: "\<forall>g \<in> set [1::nat]. quiet ex2_env g" and qq: "\<forall>g \<in> set [3::nat]. quiet ex2_env g"
    using ex2_env_quiet by simp_all
  have fr: "frozen 0 ?w" by (simp add: frozen_def initial_world_def)
  note th = listener_snapshot_law[OF initial_world_props(1,2,3) ex2_env_pure initial_world_props(4)
      body qp qq ex2_env_quiet(3) valid_act_inc valid_act_inc, of 0]
  note a = conjunct1[OF th]
  note b = conjunct1[OF conjunct2[OF th]]
  note c = conjunct1[OF conjunct2[OF conjunct2[OF th]]]
  note d = conjunct2[OF conjunct2[OF conjunct2[OF th]]]
  have b': "notify ex2_env 2 0 0 ?w = notify_list ex2_env 2 (drop 0 (arrays ?w ! 0)) ?w"
    using b[rule_format, of ?w 0 ex2_env 2 0] initial_world_props(1) fr by blast
  have c': "currentListeners (snd (subscribe (Fun 1) ?w)) = currentListeners ?w
      \<and> arrays (snd (subscribe (Fun 1) ?w)) ! currentListeners ?w = arrays ?w ! currentListeners ?w"
    using c initial_world_props(1) by blast
  have d': "currentListeners (snd (unsubscribe 0 ?w)) = currentListeners ?w
      \<and> arrays (snd (unsubscribe 0 ?w)) ! currentListeners ?w = arrays ?w ! currentListeners ?w"
    using d initial_world_props(1) by blast
  show ?thesis
    using a b' c' d' initial_world_props(1,2,3,4)[of "Fun 0" Undefined] ex2_env_pure body
      ex2_env_quiet valid_act_inc fr
    by blast
qed

text \<open>
  Claim C3. \<open>applyMiddleware\<close> of the list \<open>[A, B]\<close> returns the store it was given with the
  field \<open>dispatch\<close> replaced and nothing else. The new \<open>dispatch\<close> runs the handler of \<open>A\<close>;
  its \<open>next\<close> runs the handler of \<open>B\<close>, whose \<open>next\<close> is the \<open>dispatch\<close> of the store given.
  When the handler of \<open>A\<close> does not call \<open>next\<close> for an action, the dispatch is what the
  handler does and returns what it returns: neither the handler of \<open>B\<close> nor the base
  \<open>dispatch\<close> is part of it.
\<close>

theorem middleware_chain_order:
  assumes create: "createStore' reducer preloadedState enhancer = Some (Inr (store, w))"
    and chain: "map_middlewares (call_cmd env n) [A, B] (w\<lparr>mwDispatch := Constructing\<rparr>)
                  = Some (Inr [(iA, hA), (iB, hB)], w1)"
  shows "\<exists>store'.
       applyMiddleware env n [A, B] createStore' reducer preloadedState enhancer
         = Some (Inr (store', w1\<lparr>mwDispatch := Composed [(iA, hA), (iB, hB)]\<rparr>))
     \<and> store' = store\<lparr>obj_dispatch := obj_dispatch store'\<rparr>
     \<and> obj_getState store' = obj_getState store
     \<and> obj_subscribe store' = obj_subscribe store
     \<and> obj_replaceReducer store' = obj_replaceReducer store
     \<and> obj_observable store' = obj_observable store
     \<and> (\<forall>k a v. obj_dispatch store' k a v =
           run (\<lambda>c. case c of
                       Next a' \<Rightarrow> link (call_cmd env k) (iB, hB) (obj_dispatch store k) a'
                     | Cmd c' \<Rightarrow> call_cmd env k c')
               (hA a) (v\<lparr>trace := trace v @ [EvHandler iA a]\<rparr>))
     \<and> (\<forall>k a' v. link (call_cmd env k) (iB, hB) (obj_dispatch store k) a' v =
           run (\<lambda>c. case c of
                       Next a'' \<Rightarrow> obj_dispatch store k a''
                     | Cmd c' \<Rightarrow> call_cmd env k c')
               (hB a') (v\<lparr>trace := trace v @ [EvHandler iB a']\<rparr>))
     \<and> (\<forall>k a v p. hA a = lift p \<longrightarrow>
           obj_dispatch store' k a v
             = run (call_cmd env k) p (v\<lparr>trace := trace v @ [EvHandler iA a]\<rparr>))
     \<and> (\<forall>k a v x. hA a = Return x \<longrightarrow>
           obj_dispatch store' k a v = Some (Inr x, v\<lparr>trace := trace v @ [EvHandler iA a]\<rparr>))"
proof -
  let ?chain = "[(iA, hA), (iB, hB)]"
  let ?store' = "store\<lparr>obj_dispatch :=
                    (\<lambda>k. compose (map (link (call_cmd env k)) ?chain) (obj_dispatch store k))\<rparr>"
  have r: "applyMiddleware env n [A, B] createStore' reducer preloadedState enhancer
         = Some (Inr (?store', w1\<lparr>mwDispatch := Composed ?chain\<rparr>))"
    using create chain by (simp add: applyMiddleware_def del: map_middlewares.simps)
  have d: "obj_dispatch ?store' k a v =
           run (\<lambda>c. case c of
                       Next a' \<Rightarrow> link (call_cmd env k) (iB, hB) (obj_dispatch store k) a'
                     | Cmd c' \<Rightarrow> call_cmd env k c')
               (hA a) (v\<lparr>trace := trace v @ [EvHandler iA a]\<rparr>)" for k a v
    by (simp add: link_def)
  have l: "link (call_cmd env k) (iB, hB) (obj_dispatch store k) a' v =
           run (\<lambda>c. case c of
                       Next a'' \<Rightarrow> obj_dispatch store k a''
                     | Cmd c' \<Rightarrow> call_cmd env k c')
               (hB a') (v\<lparr>trace := trace v @ [EvHandler iB a']\<rparr>)" for k a' v
    by (simp add: link_def)
  have s: "hA a = lift p \<longrightarrow>
           obj_dispatch ?store' k a v
             = run (call_cmd env k) p (v\<lparr>trace := trace v @ [EvHandler iA a]\<rparr>)" for k a v p
    using d[of k a v] by (simp add: run_lift del: compose.simps)
  have t: "hA a = Return x \<longrightarrow>
           obj_dispatch ?store' k a v = Some (Inr x, v\<lparr>trace := trace v @ [EvHandler iA a]\<rparr>)" for k a v x
    using d[of k a v] by (simp del: compose.simps)
  have e: "?store' = store\<lparr>obj_dispatch := obj_dispatch ?store'\<rparr>" by simp
  show ?thesis
    apply (rule exI[of _ ?store'])
    apply (intro conjI allI)
    subgoal by (rule r)
    subgoal by (rule e)
    subgoal by simp
    subgoal by simp
    subgoal by simp
    subgoal by simp
    subgoal by (rule d)
    subgoal by (rule l)
    subgoal by (rule s)
    subgoal by (rule t)
    done
qed

theorem middleware_chain_order_witness:
  "createStore ex_env (\<lambda>f c. c) 3 (Fun 0) Undefined Undefined
     = Some (Inr (store_object ex_env, ex_world))
   \<and> map_middlewares (call_cmd ex_env 2) [mw_swallow, mw_pass] (ex_world\<lparr>mwDispatch := Constructing\<rparr>)
       = Some (Inr [(1, swallow_probe), (2, pass_on)], ex_world\<lparr>mwDispatch := Constructing\<rparr>)
   \<and> (\<exists>store'.
         applyMiddleware ex_env 2 [mw_swallow, mw_pass] (createStore ex_env (\<lambda>f c. c) 3)
             (Fun 0) Undefined Undefined
           = Some (Inr (store', ex_world\<lparr>mwDispatch := Composed [(1, swallow_probe), (2, pass_on)]\<rparr>))
       \<and> store' = (store_object ex_env)\<lparr>obj_dispatch := obj_dispatch store'\<rparr>
       \<and> obj_getState store' = obj_getState (store_object ex_env)
       \<and> obj_subscribe store' = obj_subscribe (store_object ex_env)
       \<and> obj_replaceReducer store' = obj_replaceReducer (store_object ex_env)
       \<and> obj_observable store' = obj_observable (store_object ex_env)
       \<and> obj_dispatch store' 3 probe ex_world
           = Some (Inr (Str ''swallowed''), ex_world\<lparr>trace := trace ex_world @ [EvHandler 1 probe]\<rparr>)
       \<and> map_option (\<lambda>(r, w). (r, currentState w, drop (length (trace ex_world)) (trace w)))
             (obj_dispatch store' 3 act_inc ex_world)
           = Some (Inr act_inc, Number 1,
                   [EvHandler 1 act_inc, EvHandler 2 act_inc, EvCall 0 [Number 0, act_inc]]))"
proof -
  have c: "createStore ex_env (\<lambda>f c. c) 3 (Fun 0) Undefined Undefined
     = Some (Inr (store_object ex_env, ex_world))"
    using createStore_ex_env[of "\<lambda>f c. c" 0] by (simp add: numeral_3_eq_3)
  from middleware_chain_order[where createStore' = "createStore ex_env (\<lambda>f c. c) 3"
      and reducer = "Fun 0" and preloadedState = Undefined and enhancer = Undefined,
      OF c map_middlewares_ex] obtain store' where
    a: "applyMiddleware ex_env 2 [mw_swallow, mw_pass] (createStore ex_env (\<lambda>f c. c) 3)
             (Fun 0) Undefined Undefined
           = Some (Inr (store', ex_world\<lparr>mwDispatch := Constructing,
                                         mwDispatch := Composed [(1, swallow_probe), (2, pass_on)]\<rparr>))"
    and e: "store' = (store_object ex_env)\<lparr>obj_dispatch := obj_dispatch store'\<rparr>"
      "obj_getState store' = obj_getState (store_object ex_env)"
      "obj_subscribe store' = obj_subscribe (store_object ex_env)"
      "obj_replaceReducer store' = obj_replaceReducer (store_object ex_env)"
      "obj_observable store' = obj_observable (store_object ex_env)"
    and first: "\<forall>k a v. obj_dispatch store' k a v =
           run (\<lambda>c. case c of
                       Next a' \<Rightarrow> link (call_cmd ex_env k) (2, pass_on) (obj_dispatch (store_object ex_env) k) a'
                     | Cmd c' \<Rightarrow> call_cmd ex_env k c')
               (swallow_probe a) (v\<lparr>trace := trace v @ [EvHandler 1 a]\<rparr>)"
    and short: "\<forall>k a v x. swallow_probe a = Return x \<longrightarrow>
           obj_dispatch store' k a v = Some (Inr x, v\<lparr>trace := trace v @ [EvHandler 1 a]\<rparr>)"
    by blast
  have p: "obj_dispatch store' 3 probe ex_world
           = Some (Inr (Str ''swallowed''), ex_world\<lparr>trace := trace ex_world @ [EvHandler 1 probe]\<rparr>)"
    using short by (simp add: swallow_probe_def)
  let ?w1 = "ex_world\<lparr>trace := trace ex_world @ [EvHandler 1 act_inc, EvHandler 2 act_inc]\<rparr>"
  have w1: "wf_world ?w1" "\<not> isDispatching ?w1" "currentReducer ?w1 = Fun 0" "live ?w1 = []"
    using ex_world_props by (simp_all add: wf_world_def live_def)
  have d: "dispatch ex_env 3 act_inc ?w1 =
     Some (Inr act_inc, ?w1\<lparr>trace := trace ?w1 @ [EvCall 0 [currentState ?w1, act_inc]],
                    currentState := count (currentState ?w1) act_inc, isDispatching := False,
                    currentListeners := nextListeners ?w1\<rparr>)"
    using dispatch_no_listeners[OF w1(1,2,3) ex_env_pure valid_act_inc w1(4), of 1]
    by (simp add: numeral_3_eq_3 del: dispatch.simps)
  have ne: "act_inc \<noteq> probe" by (simp add: act_inc_def probe_def)
  have "obj_dispatch store' 3 act_inc ex_world =
     Some (Inr act_inc, ?w1\<lparr>trace := trace ?w1 @ [EvCall 0 [currentState ?w1, act_inc]],
                    currentState := count (currentState ?w1) act_inc, isDispatching := False,
                    currentListeners := nextListeners ?w1\<rparr>)"
    using first[rule_format, of 3 act_inc ex_world] d ne
    by (simp add: swallow_probe_def pass_on_def link_def store_object_def del: dispatch.simps)
  then have q: "map_option (\<lambda>(r, w). (r, currentState w, drop (length (trace ex_world)) (trace w)))
             (obj_dispatch store' 3 act_inc ex_world)
           = Some (Inr act_inc, Number 1,
                   [EvHandler 1 act_inc, EvHandler 2 act_inc, EvCall 0 [Number 0, act_inc]])"
    using ex_world_props(5) by (simp add: count_def act_inc_def)
  have a': "applyMiddleware ex_env 2 [mw_swallow, mw_pass] (createStore ex_env (\<lambda>f c. c) 3)
             (Fun 0) Undefined Undefined
           = Some (Inr (store', ex_world\<lparr>mwDispatch := Composed [(1, swallow_probe), (2, pass_on)]\<rparr>))"
    using a by simp
  show ?thesis using c map_middlewares_ex a' e p q by blast
qed

text \<open>
  Claim C4. While a reducer runs, \<open>dispatch\<close> of a valid action throws the error
  \<open>Reducers may not dispatch actions\<close>, of the class ReentrancyError: in \<open>dispatch\<close> the
  reducer's program can be replaced by the one where each such call has thrown. However
  a \<open>dispatch\<close> on an idle store ends, the store is idle again; and after one that threw,
  the next \<open>dispatch\<close> runs the reducer and notifies the listeners.
\<close>

theorem reducer_cannot_dispatch:
  "(isDispatching w \<and> valid_action a \<longrightarrow>
      dispatch env (Suc n) a w = Some (Inl ReducersMayNotDispatch, w))
   \<and> classify ReducersMayNotDispatch = ReentrancyError
   \<and> (\<not> isDispatching w \<and> valid_action a \<and> currentReducer w = Fun g \<longrightarrow>
        dispatch env (Suc (Suc (Suc (Suc n)))) a w =
          (case run (call_cmd env (Suc (Suc n)))
                  (force while_reducing (fn_body env g [currentState w, a]))
                  (w\<lparr>isDispatching := True, trace := trace w @ [EvCall g [currentState w, a]]\<rparr>) of
             None \<Rightarrow> None
           | Some (Inl e, w1) \<Rightarrow> Some (Inl e, w1\<lparr>isDispatching := False\<rparr>)
           | Some (Inr st, w1) \<Rightarrow>
               (case notify env (Suc (Suc (Suc n))) (nextListeners w1) 0
                       (w1\<lparr>currentState := st, isDispatching := False,
                            currentListeners := nextListeners w1\<rparr>) of
                  None \<Rightarrow> None
                | Some (Inl e, w2) \<Rightarrow> Some (Inl e, w2)
                | Some (Inr v, w2) \<Rightarrow> Some (Inr a, w2))))
   \<and> (\<not> isDispatching w \<and> dispatch env k a w = Some (r, w') \<longrightarrow> \<not> isDispatching w')
   \<and> (wf_world w \<and> \<not> isDispatching w \<and> dispatch env k a w = Some (Inl e, w')
        \<and> valid_action a2 \<and> currentReducer w' = Fun g' \<and> fn_body env g' [currentState w', a2] = Return st
        \<longrightarrow> dispatch env (Suc (Suc j)) a2 w' =
              (case notify_list env (Suc j) (live w')
                      (w'\<lparr>trace := trace w' @ [EvCall g' [currentState w', a2]],
                          currentState := st, isDispatching := False,
                          currentListeners := nextListeners w'\<rparr>) of
                 None \<Rightarrow> None
               | Some (Inl e, w2) \<Rightarrow> Some (Inl e, w2)
               | Some (Inr v, w2) \<Rightarrow> Some (Inr a2, w2)))"
proof (intro conjI impI)
  assume "isDispatching w \<and> valid_action a"
  then show "dispatch env (Suc n) a w = Some (Inl ReducersMayNotDispatch, w)"
    using dispatch_while_reducing by blast
next
  show "classify ReducersMayNotDispatch = ReentrancyError" by simp
next
  assume "\<not> isDispatching w \<and> valid_action a \<and> currentReducer w = Fun g"
  then show "dispatch env (Suc (Suc (Suc (Suc n)))) a w =
          (case run (call_cmd env (Suc (Suc n)))
                  (force while_reducing (fn_body env g [currentState w, a]))
                  (w\<lparr>isDispatching := True, trace := trace w @ [EvCall g [currentState w, a]]\<rparr>) of
             None \<Rightarrow> None
           | Some (Inl e, w1) \<Rightarrow> Some (Inl e, w1\<lparr>isDispatching := False\<rparr>)
           | Some (Inr st, w1) \<Rightarrow>
               (case notify env (Suc (Suc (Suc n))) (nextListeners w1) 0
                       (w1\<lparr>currentState := st, isDispatching := False,
                            currentListeners := nextListeners w1\<rparr>) of
                  None \<Rightarrow> None
                | Some (Inl e, w2) \<Rightarrow> Some (Inl e, w2)
                | Some (Inr v, w2) \<Rightarrow> Some (Inr a, w2)))"
    using dispatch_forced_reducer by blast
next
  assume "\<not> isDispatching w \<and> dispatch env k a w = Some (r, w')"
  then show "\<not> isDispatching w'" using dispatch_leaves_idle by blast
next
  assume h: "wf_world w \<and> \<not> isDispatching w \<and> dispatch env k a w = Some (Inl e, w')
        \<and> valid_action a2 \<and> currentReducer w' = Fun g' \<and> fn_body env g' [currentState w', a2] = Return st"
  then have "\<not> isDispatching w'" using dispatch_leaves_idle by blast
  moreover have "wf_world w'"
    using h dispatch_preserves[OF closed_keeps, of env k a w "Inl e" w'] by (simp add: keeps_def)
  ultimately show "dispatch env (Suc (Suc j)) a2 w' =
              (case notify_list env (Suc j) (live w')
                      (w'\<lparr>trace := trace w' @ [EvCall g' [currentState w', a2]],
                          currentState := st, isDispatching := False,
                          currentListeners := nextListeners w'\<rparr>) of
                 None \<Rightarrow> None
               | Some (Inl e, w2) \<Rightarrow> Some (Inl e, w2)
               | Some (Inr v, w2) \<Rightarrow> Some (Inr a2, w2))"
    using h dispatch_returning[of w' g' env a2 st j] by blast
qed

theorem reducer_cannot_dispatch_witness:
  "isDispatching ((initial_world (Fun 0) (Number 0))\<lparr>isDispatching := True\<rparr>)
   \<and> valid_action act_inc
   \<and> dispatch c4_env (Suc 0) act_inc ((initial_world (Fun 0) (Number 0))\<lparr>isDispatching := True\<rparr>)
       = Some (Inl ReducersMayNotDispatch, (initial_world (Fun 0) (Number 0))\<lparr>isDispatching := True\<rparr>)
   \<and> wf_world (initial_world (Fun 0) (Number 0))
   \<and> \<not> isDispatching (initial_world (Fun 0) (Number 0))
   \<and> valid_action boom
   \<and> currentReducer (initial_world (Fun 0) (Number 0)) = Fun 0
   \<and> (\<exists>w'. dispatch c4_env (Suc (Suc (Suc (Suc 0)))) boom (initial_world (Fun 0) (Number 0))
               = Some (Inl ReducersMayNotDispatch, w')
          \<and> \<not> isDispatching w'
          \<and> currentReducer w' = Fun 0
          \<and> fn_body c4_env 0 [currentState w', act_inc] = Return (Number 1)
          \<and> (\<exists>w''. dispatch c4_env (Suc (Suc 0)) act_inc w' = Some (Inr act_inc, w'')
                 \<and> currentState w'' = Number 1))"
proof -
  let ?W = "initial_world (Fun 0) (Number 0)"
  let ?D = "?W\<lparr>isDispatching := True\<rparr>"
  let ?W' = "?W\<lparr>isDispatching := True, trace := trace ?W @ [EvCall 0 [currentState ?W, boom]],
                isDispatching := False\<rparr>"
  note p = initial_world_props[of "Fun 0" "Number 0"]
  have d: "isDispatching ?D" by simp
  note t1 = reducer_cannot_dispatch[where w = ?D and a = act_inc and env = c4_env and n = 0]
  have one: "dispatch c4_env (Suc 0) act_inc ?D = Some (Inl ReducersMayNotDispatch, ?D)"
    using conjunct1[OF t1] d valid_act_inc by blast
  note t2 = reducer_cannot_dispatch[where w = ?W and a = boom and env = c4_env and n = 0 and g = 0
      and k = "Suc (Suc (Suc (Suc 0)))" and r = "Inl ReducersMayNotDispatch" and w' = ?W'
      and e = ReducersMayNotDispatch and ?a2.0 = act_inc and g' = 0 and st = "Number 1" and j = 0]
  note t2c = conjunct1[OF conjunct2[OF conjunct2[OF t2]]]
  note t2d = conjunct1[OF conjunct2[OF conjunct2[OF conjunct2[OF t2]]]]
  note t2e = conjunct2[OF conjunct2[OF conjunct2[OF conjunct2[OF t2]]]]
  have body: "fn_body c4_env 0 [currentState ?W, boom]
      = Call (Dispatch act_inc) (\<lambda>r. case r of Inl e \<Rightarrow> Throw e | Inr v \<Rightarrow> Return (currentState ?W))"
    by (simp add: c4_env_def)
  have two: "dispatch c4_env (Suc (Suc (Suc (Suc 0)))) boom ?W = Some (Inl ReducersMayNotDispatch, ?W')"
    using t2c p(2,3) valid_boom valid_act_inc
    by (simp add: body while_reducing_def del: dispatch.simps)
  have three: "\<not> isDispatching ?W'" using t2d p(2) two by blast
  have r': "currentReducer ?W' = Fun 0" using p(3) by simp
  have s': "currentState ?W' = Number 0" using p(6) by simp
  have b': "fn_body c4_env 0 [currentState ?W', act_inc] = Return (Number 1)"
    using p(6) by (simp add: c4_env_def act_inc_def boom_def count_def)
  have l': "live ?W' = []" using p(4) by (simp add: live_def)
  have "dispatch c4_env (Suc (Suc 0)) act_inc ?W' =
              (case notify_list c4_env (Suc 0) (live ?W')
                      (?W'\<lparr>trace := trace ?W' @ [EvCall 0 [currentState ?W', act_inc]],
                          currentState := Number 1, isDispatching := False,
                          currentListeners := nextListeners ?W'\<rparr>) of
                 None \<Rightarrow> None
               | Some (Inl e, w2) \<Rightarrow> Some (Inl e, w2)
               | Some (Inr v, w2) \<Rightarrow> Some (Inr act_inc, w2))"
    using t2e p(1,2) two valid_act_inc r' b' by blast
  then have four: "\<exists>w''. dispatch c4_env (Suc (Suc 0)) act_inc ?W' = Some (Inr act_inc, w'')
                 \<and> currentState w'' = Number 1"
    using l' by (simp del: dispatch.simps)
  show ?thesis
    using d valid_act_inc one p(1,2,3) valid_boom two three r' b' four by blast
qed

text \<open>
  Claim C5, as amended. While the flag is set, \<open>getState\<close>, \<open>subscribe\<close> of a function,
  \<open>unsubscribe\<close> of a live subscription and \<open>dispatch\<close> of a valid action throw an error of
  the class ReentrancyError. \<open>dispatch\<close> sets the flag for the call of the reducer only:
  it clears it before it notifies the listeners and before it lets an error of the
  reducer through. Neither the reducer nor a listener nor the loop changes the flag, so
  the listeners run on an idle store, and \<open>dispatch\<close> leaves an idle store idle. On an
  idle store \<open>getState\<close> answers, \<open>subscribe\<close> of a function returns its \<open>unsubscribe\<close>,
  and \<open>unsubscribe\<close> returns.
\<close>

theorem dispatching_only_while_reducing:
  "(isDispatching w \<longrightarrow>
       getState w = (Inl GetStateWhileReducing, w)
     \<and> (typeof listener = TFunction \<longrightarrow> subscribe listener w = (Inl SubscribeWhileReducing, w))
     \<and> (h < length (closures w) \<and> snd (closures w ! h) \<longrightarrow>
          unsubscribe h w = (Inl UnsubscribeWhileReducing, w))
     \<and> (valid_action a \<longrightarrow> dispatch env (Suc n) a w = Some (Inl ReducersMayNotDispatch, w)))
   \<and> classify GetStateWhileReducing = ReentrancyError
   \<and> classify SubscribeWhileReducing = ReentrancyError
   \<and> classify UnsubscribeWhileReducing = ReentrancyError
   \<and> classify ReducersMayNotDispatch = ReentrancyError
   \<and> (\<not> isDispatching w \<and> valid_action a \<longrightarrow>
        dispatch env (Suc n) a w =
          (case call_fn env n (currentReducer w) [currentState w, a] (w\<lparr>isDispatching := True\<rparr>) of
             None \<Rightarrow> None
           | Some (Inl e, w1) \<Rightarrow> Some (Inl e, w1\<lparr>isDispatching := False\<rparr>)
           | Some (Inr st, w1) \<Rightarrow>
               (case notify env n (nextListeners w1) 0
                       (w1\<lparr>currentState := st, isDispatching := False,
                            currentListeners := nextListeners w1\<rparr>) of
                  None \<Rightarrow> None
                | Some (Inl e, w2) \<Rightarrow> Some (Inl e, w2)
                | Some (Inr v, w2) \<Rightarrow> Some (Inr a, w2))))
   \<and> (call_fn env k f args w = Some (r, w') \<longrightarrow> isDispatching w' = isDispatching w)
   \<and> (notify env k A i w = Some (r, w') \<longrightarrow> isDispatching w' = isDispatching w)
   \<and> (\<not> isDispatching w \<and> dispatch env k a w = Some (r, w') \<longrightarrow> \<not> isDispatching w')
   \<and> (\<not> isDispatching w \<longrightarrow> getState w = (Inr (currentState w), w))
   \<and> (\<not> isDispatching w \<and> typeof listener = TFunction \<longrightarrow>
        fst (subscribe listener w) = Inr (Unsub (length (closures w))))
   \<and> (\<not> isDispatching w \<and> h < length (closures w) \<longrightarrow> fst (unsubscribe h w) = Inr Undefined)"
proof -
  have a: "isDispatching w \<longrightarrow>
       getState w = (Inl GetStateWhileReducing, w)
     \<and> (typeof listener = TFunction \<longrightarrow> subscribe listener w = (Inl SubscribeWhileReducing, w))
     \<and> (h < length (closures w) \<and> snd (closures w ! h) \<longrightarrow>
          unsubscribe h w = (Inl UnsubscribeWhileReducing, w))
     \<and> (valid_action a \<longrightarrow> dispatch env (Suc n) a w = Some (Inl ReducersMayNotDispatch, w))"
    using dispatch_while_reducing[of w a env n] unsubscribe_dispatching[of h w]
    by (simp add: getState_def subscribe_def del: dispatch.simps)
  have b: "\<not> isDispatching w \<and> valid_action a \<longrightarrow>
        dispatch env (Suc n) a w =
          (case call_fn env n (currentReducer w) [currentState w, a] (w\<lparr>isDispatching := True\<rparr>) of
             None \<Rightarrow> None
           | Some (Inl e, w1) \<Rightarrow> Some (Inl e, w1\<lparr>isDispatching := False\<rparr>)
           | Some (Inr st, w1) \<Rightarrow>
               (case notify env n (nextListeners w1) 0
                       (w1\<lparr>currentState := st, isDispatching := False,
                            currentListeners := nextListeners w1\<rparr>) of
                  None \<Rightarrow> None
                | Some (Inl e, w2) \<Rightarrow> Some (Inl e, w2)
                | Some (Inr v, w2) \<Rightarrow> Some (Inr a, w2)))"
    using valid_actionD[of a] by simp
  have c: "call_fn env k f args w = Some (r, w') \<longrightarrow> isDispatching w' = isDispatching w"
    using call_fn_preserves[OF closed_same_flag, of env k f args w r w'] by (simp add: same_flag_def)
  have d: "notify env k A i w = Some (r, w') \<longrightarrow> isDispatching w' = isDispatching w"
    using notify_preserves[OF closed_same_flag, of env k A i w r w'] by (simp add: same_flag_def)
  have e: "\<not> isDispatching w \<and> dispatch env k a w = Some (r, w') \<longrightarrow> \<not> isDispatching w'"
    using dispatch_leaves_idle by blast
  have f: "\<not> isDispatching w \<longrightarrow> getState w = (Inr (currentState w), w)"
    by (simp add: getState_def)
  have g: "\<not> isDispatching w \<and> typeof listener = TFunction \<longrightarrow>
        fst (subscribe listener w) = Inr (Unsub (length (closures w)))"
    by (simp add: subscribe_def Let_def)
  have h: "\<not> isDispatching w \<and> h < length (closures w) \<longrightarrow> fst (unsubscribe h w) = Inr Undefined"
    by (simp add: unsubscribe_def Let_def)
  from a b c d e f g h show ?thesis by simp
qed

theorem dispatching_only_while_reducing_witness:
  "isDispatching busy_world
   \<and> getState busy_world = (Inl GetStateWhileReducing, busy_world)
   \<and> typeof (Fun 2) = TFunction
   \<and> subscribe (Fun 2) busy_world = (Inl SubscribeWhileReducing, busy_world)
   \<and> 0 < length (closures busy_world) \<and> snd (closures busy_world ! 0)
   \<and> unsubscribe 0 busy_world = (Inl UnsubscribeWhileReducing, busy_world)
   \<and> valid_action act_inc
   \<and> dispatch ex_env (Suc 0) act_inc busy_world = Some (Inl ReducersMayNotDispatch, busy_world)
   \<and> \<not> isDispatching (initial_world (Fun 0) (Number 0))
   \<and> dispatch ex_env (Suc 2) act_inc (initial_world (Fun 0) (Number 0)) =
        (case call_fn ex_env 2 (currentReducer (initial_world (Fun 0) (Number 0)))
                [currentState (initial_world (Fun 0) (Number 0)), act_inc]
                ((initial_world (Fun 0) (Number 0))\<lparr>isDispatching := True\<rparr>) of
           None \<Rightarrow> None
         | Some (Inl e, w1) \<Rightarrow> Some (Inl e, w1\<lparr>isDispatching := False\<rparr>)
         | Some (Inr st, w1) \<Rightarrow>
             (case notify ex_env 2 (nextListeners w1) 0
                     (w1\<lparr>currentState := st, isDispatching := False,
                          currentListeners := nextListeners w1\<rparr>) of
                None \<Rightarrow> None
              | Some (Inl e, w2) \<Rightarrow> Some (Inl e, w2)
              | Some (Inr v, w2) \<Rightarrow> Some (Inr act_inc, w2)))
   \<and> (\<exists>w1. call_fn ex_env 2 (Fun 0) [Number 0, act_inc]
                ((initial_world (Fun 0) (Number 0))\<lparr>isDispatching := True\<rparr>)
              = Some (Inr (Number 1), w1)
          \<and> isDispatching w1 = isDispatching ((initial_world (Fun 0) (Number 0))\<lparr>isDispatching := True\<rparr>))
   \<and> (\<exists>w2. notify ex_env 1 0 0 (initial_world (Fun 0) (Number 0)) = Some (Inr Undefined, w2)
          \<and> isDispatching w2 = isDispatching (initial_world (Fun 0) (Number 0)))
   \<and> (\<exists>w3. dispatch ex_env 3 act_inc (initial_world (Fun 0) (Number 0)) = Some (Inr act_inc, w3)
          \<and> \<not> isDispatching w3)
   \<and> getState (initial_world (Fun 0) (Number 0))
        = (Inr (currentState (initial_world (Fun 0) (Number 0))), initial_world (Fun 0) (Number 0))
   \<and> fst (subscribe (Fun 2) (initial_world (Fun 0) (Number 0)))
        = Inr (Unsub (length (closures (initial_world (Fun 0) (Number 0)))))
   \<and> \<not> isDispatching (snd (subscribe (Fun 1) (initial_world (Fun 0) (Number 0))))
   \<and> 0 < length (closures (snd (subscribe (Fun 1) (initial_world (Fun 0) (Number 0)))))
   \<and> fst (unsubscribe 0 (snd (subscribe (Fun 1) (initial_world (Fun 0) (Number 0))))) = Inr Undefined"
proof -
  let ?W = "initial_world (Fun 0) (Number 0)"
  let ?V = "snd (subscribe (Fun 1) (initial_world (Fun 0) (Number 0)))"
  note p = initial_world_props[of "Fun 0" "Number 0"]
  note t1 = dispatching_only_while_reducing[where w = busy_world and listener = "Fun 2" and h = 0
      and a = act_inc and env = ex_env and n = 0]
  have f: "typeof (Fun 2) = TFunction" by simp
  have a: "getState busy_world = (Inl GetStateWhileReducing, busy_world)"
    "subscribe (Fun 2) busy_world = (Inl SubscribeWhileReducing, busy_world)"
    "unsubscribe 0 busy_world = (Inl UnsubscribeWhileReducing, busy_world)"
    "dispatch ex_env (Suc 0) act_inc busy_world = Some (Inl ReducersMayNotDispatch, busy_world)"
    using conjunct1[OF t1] busy_world_props f valid_act_inc by blast+
  have c1: "call_fn ex_env 2 (Fun 0) [Number 0, act_inc] (?W\<lparr>isDispatching := True\<rparr>)
      = Some (Inr (Number 1), ?W\<lparr>isDispatching := True, trace := trace ?W @ [EvCall 0 [Number 0, act_inc]]\<rparr>)"
    using call_fn_pure[OF ex_env_pure, of 1 "Number 0" act_inc "?W\<lparr>isDispatching := True\<rparr>"]
    by (simp add: count_def act_inc_def numeral_2_eq_2 del: call_fn.simps)
  have n1: "notify ex_env 1 0 0 ?W = Some (Inr Undefined, ?W)"
    by (simp add: initial_world_def)
  have d3: "dispatch ex_env 3 act_inc ?W =
     Some (Inr act_inc, ?W\<lparr>trace := trace ?W @ [EvCall 0 [currentState ?W, act_inc]],
                    currentState := count (currentState ?W) act_inc, isDispatching := False,
                    currentListeners := nextListeners ?W\<rparr>)"
    using dispatch_no_listeners[OF p(1,2,3) ex_env_pure valid_act_inc p(4), of 1]
    by (simp add: numeral_3_eq_3 del: dispatch.simps)
  note t2 = dispatching_only_while_reducing[where w = ?W and a = act_inc and env = ex_env and n = 2]
  have b: "dispatch ex_env (Suc 2) act_inc ?W =
        (case call_fn ex_env 2 (currentReducer ?W) [currentState ?W, act_inc] (?W\<lparr>isDispatching := True\<rparr>) of
           None \<Rightarrow> None
         | Some (Inl e, w1) \<Rightarrow> Some (Inl e, w1\<lparr>isDispatching := False\<rparr>)
         | Some (Inr st, w1) \<Rightarrow>
             (case notify ex_env 2 (nextListeners w1) 0
                     (w1\<lparr>currentState := st, isDispatching := False,
                          currentListeners := nextListeners w1\<rparr>) of
                None \<Rightarrow> None
              | Some (Inl e, w2) \<Rightarrow> Some (Inl e, w2)
              | Some (Inr v, w2) \<Rightarrow> Some (Inr act_inc, w2)))"
    using t2 p(2) valid_act_inc by blast
  have g: "getState ?W = (Inr (currentState ?W), ?W)"
    using t2 p(2) by blast
  note t3 = dispatching_only_while_reducing[where w = "?W\<lparr>isDispatching := True\<rparr>" and env = ex_env
      and k = 2 and f = "Fun 0" and args = "[Number 0, act_inc]" and r = "Inr (Number 1)"
      and w' = "?W\<lparr>isDispatching := True, trace := trace ?W @ [EvCall 0 [Number 0, act_inc]]\<rparr>"]
  have c: "\<exists>w1. call_fn ex_env 2 (Fun 0) [Number 0, act_inc] (?W\<lparr>isDispatching := True\<rparr>)
              = Some (Inr (Number 1), w1)
          \<and> isDispatching w1 = isDispatching (?W\<lparr>isDispatching := True\<rparr>)"
    using t3 c1 by blast
  note t4 = dispatching_only_while_reducing[where w = ?W and env = ex_env
      and k = 1 and A = 0 and i = 0 and r = "Inr Undefined" and w' = ?W]
  have d: "\<exists>w2. notify ex_env 1 0 0 ?W = Some (Inr Undefined, w2)
          \<and> isDispatching w2 = isDispatching ?W"
    using t4 n1 by blast
  note t5 = dispatching_only_while_reducing[where w = ?W and env = ex_env and a = act_inc
      and k = 3 and r = "Inr act_inc"
      and w' = "?W\<lparr>trace := trace ?W @ [EvCall 0 [currentState ?W, act_inc]],
                    currentState := count (currentState ?W) act_inc, isDispatching := False,
                    currentListeners := nextListeners ?W\<rparr>"]
  have e: "\<exists>w3. dispatch ex_env 3 act_inc ?W = Some (Inr act_inc, w3) \<and> \<not> isDispatching w3"
    using t5 d3 p(2) by blast
  note t6 = dispatching_only_while_reducing[where w = ?W and listener = "Fun 2"]
  have s: "fst (subscribe (Fun 2) ?W) = Inr (Unsub (length (closures ?W)))"
    using t6 p(2) f by blast
  have v: "\<not> isDispatching ?V" "0 < length (closures ?V)"
    by (simp_all add: subscribe_def initial_world_def Let_def ensureCanMutateNextListeners_def)
  note t7 = dispatching_only_while_reducing[where w = ?V and h = 0]
  have u: "fst (unsubscribe 0 ?V) = Inr Undefined"
    using t7 v by blast
  show ?thesis
    using busy_world_props f a valid_act_inc p(2) b c d e g s v u by blast
qed

text \<open>
  Against C5 as it is written (the store would refuse \<open>getState\<close> for the whole of a
  \<open>dispatch\<close>, the notification of the listeners included): the listener of \<open>cx5_env\<close>
  calls \<open>getState\<close> while it is notified and receives the new state, 1, which it hands to
  the user function 9.
\<close>

theorem getState_during_notification_succeeds:
  "map_option (\<lambda>(r, w). (r, trace w))
     (case createStore cx5_env (\<lambda>f c. c) 3 (Fun 0) Undefined Undefined of
        Some (Inr (store, w)) \<Rightarrow> dispatch cx5_env 6 act_inc (snd (subscribe (Fun 1) w)))
   = Some (Inr act_inc,
       [EvCall 0 [Undefined, Obj [(''type'', Str ''@@redux/INIT4.k.2.x.9'')]],
        EvCall 0 [Number 0, act_inc], EvCall 1 [], EvCall 9 [Number 1]])"
  by (simp add: cx5_env_def act_inc_def count_def numeral_nat initial_world_def
      subscribe_def getState_def ensureCanMutateNextListeners_def
      ActionTypes_INIT_def Let_def)

text \<open>
  Claim C6. While the chain is put together (the variable \<open>dispatch\<close> still holds its
  first value) a call of \<open>middlewareAPI.dispatch\<close> throws \<open>Dispatching while constructing
  your middleware is not allowed\<close>, and \<open>applyMiddleware\<close> runs every middleware it is
  given in that state. After \<open>applyMiddleware\<close>, given \<open>createStore\<close>, has returned,
  \<open>middlewareAPI.dispatch\<close> is the \<open>dispatch\<close> of the store it returned, in every later
  state of the store: no call changes the variable.
\<close>

theorem middleware_dispatch_indirection:
  "(mwDispatch v = Constructing \<longrightarrow>
      call_cmd env (Suc k) (ApiDispatch a) v = Some (Inl DispatchingWhileConstructing, v))
   \<and> applyMiddleware env (Suc k) (map constructing ms) createStore' r p e
        = applyMiddleware env (Suc k) ms createStore' r p e
   \<and> (typeof p \<noteq> TFunction
        \<and> applyMiddleware env n ms (createStore env enh j) r p Undefined = Some (Inr (store', w'))
      \<longrightarrow> (\<exists>chain. mwDispatch w' = Composed chain
             \<and> (\<forall>i a v. mwDispatch v = Composed chain \<longrightarrow>
                   call_cmd env (Suc i) (ApiDispatch a) v = obj_dispatch store' i a v)))
   \<and> (call_cmd env i c v = Some (x, v') \<longrightarrow> mwDispatch v' = mwDispatch v)
   \<and> (dispatch env i a v = Some (x, v') \<longrightarrow> mwDispatch v' = mwDispatch v)"
proof (intro conjI impI)
  assume "mwDispatch v = Constructing"
  then show "call_cmd env (Suc k) (ApiDispatch a) v = Some (Inl DispatchingWhileConstructing, v)"
    by simp
next
  show "applyMiddleware env (Suc k) (map constructing ms) createStore' r p e
        = applyMiddleware env (Suc k) ms createStore' r p e"
    by (auto simp: applyMiddleware_def map_middlewares_constructing simp del: call_cmd.simps split: option.splits sum.splits prod.splits)
next
  assume h: "typeof p \<noteq> TFunction
        \<and> applyMiddleware env n ms (createStore env enh j) r p Undefined = Some (Inr (store', w'))"
  then obtain store w where c: "createStore env enh j r p Undefined = Some (Inr (store, w))"
    by (auto simp: applyMiddleware_def split: option.splits sum.splits prod.splits)
  with h have st: "store = store_object env" using createStore_base_object by blast
  from h c obtain chain w1 where
    m: "map_middlewares (call_cmd env n) ms (w\<lparr>mwDispatch := Constructing\<rparr>) = Some (Inr chain, w1)"
    by (auto simp: applyMiddleware_def split: option.splits sum.splits prod.splits)
  from h c m have
    s': "store' = store\<lparr>obj_dispatch := (\<lambda>k. compose (map (link (call_cmd env k)) chain) (obj_dispatch store k))\<rparr>"
    and w': "w' = w1\<lparr>mwDispatch := Composed chain\<rparr>"
    by (simp_all add: applyMiddleware_def)
  have "\<forall>i a v. mwDispatch v = Composed chain \<longrightarrow>
          call_cmd env (Suc i) (ApiDispatch a) v = obj_dispatch store' i a v"
    using s' st by (simp add: store_object_def)
  with w' show "\<exists>chain. mwDispatch w' = Composed chain
             \<and> (\<forall>i a v. mwDispatch v = Composed chain \<longrightarrow>
                   call_cmd env (Suc i) (ApiDispatch a) v = obj_dispatch store' i a v)"
    by auto
next
  assume "call_cmd env i c v = Some (x, v')"
  from call_cmd_preserves[OF closed_same_cell this] show "mwDispatch v' = mwDispatch v"
    by (simp add: same_cell_def)
next
  assume "dispatch env i a v = Some (x, v')"
  from dispatch_preserves[OF closed_same_cell this] show "mwDispatch v' = mwDispatch v"
    by (simp add: same_cell_def)
qed

theorem middleware_dispatch_indirection_witness:
  "mwDispatch (ex_world\<lparr>mwDispatch := Constructing\<rparr>) = Constructing
   \<and> call_cmd ex_env (Suc 0) (ApiDispatch act_inc) (ex_world\<lparr>mwDispatch := Constructing\<rparr>)
       = Some (Inl DispatchingWhileConstructing, ex_world\<lparr>mwDispatch := Constructing\<rparr>)
   \<and> applyMiddleware ex_env (Suc 1) (map constructing [mw_pass, mw_eager])
         (createStore ex_env (\<lambda>f c. c) 3) (Fun 0) Undefined Undefined
       = applyMiddleware ex_env (Suc 1) [mw_pass, mw_eager]
           (createStore ex_env (\<lambda>f c. c) 3) (Fun 0) Undefined Undefined
   \<and> applyMiddleware ex_env (Suc 1) [mw_pass, mw_eager]
         (createStore ex_env (\<lambda>f c. c) 3) (Fun 0) Undefined Undefined
       = Some (Inl DispatchingWhileConstructing)
   \<and> typeof Undefined \<noteq> TFunction
   \<and> (\<exists>store' w'.
         applyMiddleware ex_env 2 [mw_swallow, mw_pass] (createStore ex_env (\<lambda>f c. c) 3)
             (Fun 0) Undefined Undefined = Some (Inr (store', w'))
       \<and> (\<exists>chain. mwDispatch w' = Composed chain
             \<and> (\<forall>i a v. mwDispatch v = Composed chain \<longrightarrow>
                   call_cmd ex_env (Suc i) (ApiDispatch a) v = obj_dispatch store' i a v))
       \<and> call_cmd ex_env (Suc 3) (ApiDispatch probe) w'
           = Some (Inr (Str ''swallowed''), w'\<lparr>trace := trace w' @ [EvHandler 1 probe]\<rparr>)
       \<and> (\<exists>v'. call_cmd ex_env (Suc 3) GetState w' = Some (Inr (Number 0), v')
              \<and> mwDispatch v' = mwDispatch w')
       \<and> (\<exists>v'. dispatch ex_env 3 act_inc w' = Some (Inr act_inc, v')
              \<and> mwDispatch v' = mwDispatch w'))"
proof -
  let ?C = "ex_world\<lparr>mwDispatch := Constructing\<rparr>"
  have c: "createStore ex_env (\<lambda>f c. c) 3 (Fun 0) Undefined Undefined
     = Some (Inr (store_object ex_env, ex_world))"
    using createStore_ex_env[of "\<lambda>f c. c" 0] by (simp add: numeral_3_eq_3)
  note t1 = middleware_dispatch_indirection[where v = ?C and env = ex_env and k = 0 and a = act_inc]
  have one: "call_cmd ex_env (Suc 0) (ApiDispatch act_inc) ?C = Some (Inl DispatchingWhileConstructing, ?C)"
    using conjunct1[OF t1] by simp
  note t2 = middleware_dispatch_indirection[where env = ex_env and k = 1 and ms = "[mw_pass, mw_eager]"
      and createStore' = "createStore ex_env (\<lambda>f c. c) 3" and r = "Fun 0" and p = Undefined and e = Undefined]
  note two = conjunct1[OF conjunct2[OF t2]]
  have "applyMiddleware ex_env (Suc 1) (map constructing [mw_pass, mw_eager])
         (createStore ex_env (\<lambda>f c. c) 3) (Fun 0) Undefined Undefined
       = Some (Inl DispatchingWhileConstructing)"
    using c by (simp add: applyMiddleware_def constructing_def mw_pass_def mw_eager_def
        while_constructing_def del: createStore.simps call_cmd.simps)
  with two have three: "applyMiddleware ex_env (Suc 1) [mw_pass, mw_eager]
         (createStore ex_env (\<lambda>f c. c) 3) (Fun 0) Undefined Undefined
       = Some (Inl DispatchingWhileConstructing)" by simp
  let ?chain = "[(1, swallow_probe), (2, pass_on)]"
  let ?store' = "(store_object ex_env)\<lparr>obj_dispatch :=
        (\<lambda>k. compose (map (link (call_cmd ex_env k)) ?chain) (obj_dispatch (store_object ex_env) k))\<rparr>"
  let ?w' = "ex_world\<lparr>mwDispatch := Composed ?chain\<rparr>"
  have am: "applyMiddleware ex_env 2 [mw_swallow, mw_pass] (createStore ex_env (\<lambda>f c. c) 3)
             (Fun 0) Undefined Undefined = Some (Inr (?store', ?w'))"
    using c map_middlewares_ex
    by (simp add: applyMiddleware_def del: createStore.simps call_cmd.simps map_middlewares.simps)
  have tf: "typeof Undefined \<noteq> TFunction" by simp
  note t3 = middleware_dispatch_indirection[where env = ex_env and n = 2 and ms = "[mw_swallow, mw_pass]"
      and enh = "\<lambda>f c. c" and j = 3 and r = "Fun 0" and p = Undefined and store' = ?store' and w' = ?w']
  have four: "\<exists>chain. mwDispatch ?w' = Composed chain
             \<and> (\<forall>i a v. mwDispatch v = Composed chain \<longrightarrow>
                   call_cmd ex_env (Suc i) (ApiDispatch a) v = obj_dispatch ?store' i a v)"
    using conjunct1[OF conjunct2[OF conjunct2[OF t3]]] tf am by blast
  have five: "call_cmd ex_env (Suc 3) (ApiDispatch probe) ?w'
           = Some (Inr (Str ''swallowed''), ?w'\<lparr>trace := trace ?w' @ [EvHandler 1 probe]\<rparr>)"
    by (simp add: link_def swallow_probe_def del: Suc_numeral)
  have g: "call_cmd ex_env (Suc 3) GetState ?w' = Some (Inr (Number 0), ?w')"
    using ex_world_props by (simp add: getState_def del: Suc_numeral)
  note t4 = middleware_dispatch_indirection[where env = ex_env and i = "Suc 3" and c = GetState
      and v = ?w' and x = "Inr (Number 0)" and v' = ?w']
  have six: "\<exists>v'. call_cmd ex_env (Suc 3) GetState ?w' = Some (Inr (Number 0), v')
              \<and> mwDispatch v' = mwDispatch ?w'"
    using g conjunct1[OF conjunct2[OF conjunct2[OF conjunct2[OF t4]]]] by blast
  have wp: "wf_world ?w'" "\<not> isDispatching ?w'" "currentReducer ?w' = Fun 0" "live ?w' = []"
    using ex_world_props by (simp_all add: wf_world_def live_def)
  let ?v' = "?w'\<lparr>trace := trace ?w' @ [EvCall 0 [currentState ?w', act_inc]],
                    currentState := count (currentState ?w') act_inc, isDispatching := False,
                    currentListeners := nextListeners ?w'\<rparr>"
  have d: "dispatch ex_env 3 act_inc ?w' = Some (Inr act_inc, ?v')"
    using dispatch_no_listeners[OF wp(1,2,3) ex_env_pure valid_act_inc wp(4), of 1]
    by (simp add: numeral_3_eq_3 del: dispatch.simps)
  note t5 = middleware_dispatch_indirection[where env = ex_env and i = 3 and a = act_inc
      and v = ?w' and x = "Inr act_inc" and v' = ?v']
  have seven: "\<exists>v'. dispatch ex_env 3 act_inc ?w' = Some (Inr act_inc, v')
              \<and> mwDispatch v' = mwDispatch ?w'"
    using d conjunct2[OF conjunct2[OF conjunct2[OF conjunct2[OF t5]]]] by blast
  have "\<exists>store' w'.
         applyMiddleware ex_env 2 [mw_swallow, mw_pass] (createStore ex_env (\<lambda>f c. c) 3)
             (Fun 0) Undefined Undefined = Some (Inr (store', w'))
       \<and> (\<exists>chain. mwDispatch w' = Composed chain
             \<and> (\<forall>i a v. mwDispatch v = Composed chain \<longrightarrow>
                   call_cmd ex_env (Suc i) (ApiDispatch a) v = obj_dispatch store' i a v))
       \<and> call_cmd ex_env (Suc 3) (ApiDispatch probe) w'
           = Some (Inr (Str ''swallowed''), w'\<lparr>trace := trace w' @ [EvHandler 1 probe]\<rparr>)
       \<and> (\<exists>v'. call_cmd ex_env (Suc 3) GetState w' = Some (Inr (Number 0), v')
              \<and> mwDispatch v' = mwDispatch w')
       \<and> (\<exists>v'. dispatch ex_env 3 act_inc w' = Some (Inr act_inc, v')
              \<and> mwDispatch v' = mwDispatch w')"
    using am four five six seven by blast
  then show ?thesis using one two three tf by simp
qed

text \<open>
  Claim C7. In every state of the store, \<open>dispatch\<close> of a value that is not a plain object,
  or of one whose \<open>type\<close> is \<open>undefined\<close>, throws an error of the class ValidationError
  and returns the world as it was: state, listeners, flag and trace (the reducer was not
  called), so that \<open>getState\<close> answers as before.
\<close>

theorem dispatch_rejects_malformed_action:
  assumes "\<not> valid_action action"
  shows "\<exists>e. classify e = ValidationError
           \<and> dispatch env (Suc n) action w = Some (Inl e, w)
           \<and> obj_dispatch (store_object env) (Suc n) action w = Some (Inl e, w)"
  using assms by (cases action) (auto simp: valid_action_def store_object_def typeof_undefined)

theorem dispatch_rejects_malformed_action_witness:
  "\<not> valid_action (Str ''not-a-record'')
   \<and> (\<exists>e. classify e = ValidationError
          \<and> dispatch ex_env (Suc 0) (Str ''not-a-record'') (initial_world (Fun 0) Undefined)
              = Some (Inl e, initial_world (Fun 0) Undefined)
          \<and> obj_dispatch (store_object ex_env) (Suc 0) (Str ''not-a-record'')
                (initial_world (Fun 0) Undefined)
              = Some (Inl e, initial_world (Fun 0) Undefined))
   \<and> \<not> valid_action (Obj [])
   \<and> (\<exists>e. classify e = ValidationError
          \<and> dispatch ex_env (Suc 0) (Obj []) (initial_world (Fun 0) Undefined)
              = Some (Inl e, initial_world (Fun 0) Undefined)
          \<and> obj_dispatch (store_object ex_env) (Suc 0) (Obj []) (initial_world (Fun 0) Undefined)
              = Some (Inl e, initial_world (Fun 0) Undefined))"
proof -
  have a: "\<not> valid_action (Str ''not-a-record'')" and b: "\<not> valid_action (Obj [])"
    by (simp_all add: valid_action_def)
  show ?thesis
    using a b
      dispatch_rejects_malformed_action[OF a, of ex_env 0 "initial_world (Fun 0) Undefined"]
      dispatch_rejects_malformed_action[OF b, of ex_env 0 "initial_world (Fun 0) Undefined"]
    by blast
qed

text \<open>
  Claim C8. \<open>createStore(reducer, preloadedState, enhancer)\<close>: a function as second
  argument with no third is the enhancer, and the initial state is \<open>undefined\<close>; with an
  enhancer (a user function \<open>f\<close>) the result is that of \<open>enhancer(createStore)\<close> called
  with the reducer and the initial state; an enhancer that is defined and not a function,
  and with no enhancer a reducer that is not a function, are errors of the class
  ConfigError.
\<close>

theorem createStore_arguments:
  "(typeof preloadedState = TFunction \<longrightarrow>
      createStore env enh n reducer preloadedState Undefined
        = createStore env enh n reducer Undefined preloadedState)
   \<and> createStore env enh (Suc n) reducer preloadedState (Fun f)
        = enh f (createStore env enh n) reducer preloadedState Undefined
   \<and> (enhancer \<noteq> Undefined \<and> typeof enhancer \<noteq> TFunction \<longrightarrow>
        createStore env enh (Suc n) reducer preloadedState enhancer
          = Some (Inl ExpectedEnhancerFunction))
   \<and> (typeof preloadedState \<noteq> TFunction \<and> typeof reducer \<noteq> TFunction \<longrightarrow>
        createStore env enh (Suc n) reducer preloadedState Undefined
          = Some (Inl ExpectedReducerFunction))
   \<and> classify ExpectedEnhancerFunction = ConfigError
   \<and> classify ExpectedReducerFunction = ConfigError"
  by (cases n) (auto simp: Let_def typeof_undefined)

theorem createStore_arguments_witness:
  "typeof (Fun 7) = TFunction
   \<and> createStore ex_env (\<lambda>f c. c) 4 (Fun 0) (Fun 7) Undefined
        = createStore ex_env (\<lambda>f c. c) 4 (Fun 0) Undefined (Fun 7)
   \<and> Str ''x'' \<noteq> Undefined \<and> typeof (Str ''x'') \<noteq> TFunction
   \<and> createStore ex_env (\<lambda>f c. c) (Suc 3) (Fun 0) (Number 5) (Str ''x'')
        = Some (Inl ExpectedEnhancerFunction)
   \<and> typeof (Number 5) \<noteq> TFunction \<and> typeof Null \<noteq> TFunction
   \<and> createStore ex_env (\<lambda>f c. c) (Suc 3) Null (Number 5) Undefined
        = Some (Inl ExpectedReducerFunction)"
  using createStore_arguments[where preloadedState = "Fun 7" and env = ex_env
      and enh = "\<lambda>f c. c" and n = 4 and reducer = "Fun 0" and enhancer = "Str ''x''"]
    createStore_arguments[where preloadedState = "Number 5" and env = ex_env
      and enh = "\<lambda>f c. c" and n = 3 and reducer = "Fun 0" and enhancer = "Str ''x''"]
    createStore_arguments[where preloadedState = "Number 5" and env = ex_env
      and enh = "\<lambda>f c. c" and n = 3 and reducer = Null and enhancer = "Str ''x''"]
  by simp

text \<open>
  Claim C9, as amended. On an idle store, \<open>subscribe(listener)\<close> returns an \<open>unsubscribe\<close>
  whose first call takes one registration of the listener out of the live list, and whose
  every later call returns at once and changes nothing, also while a reducer is running.
  A first call made while a reducer is running throws an error of the class
  ReentrancyError and removes nothing.
\<close>

theorem unsubscribe_idempotent:
  assumes "wf_world w" "\<not> isDispatching w" "typeof listener = TFunction"
  shows "\<exists>h w1 w2.
           subscribe listener w = (Inr (Unsub h), w1)
         \<and> unsubscribe h w1 = (Inr Undefined, w2)
         \<and> live w1 = live w @ [listener]
         \<and> live w2 = remove1 listener (live w @ [listener])
         \<and> unsubscribe h w2 = (Inr Undefined, w2)
         \<and> unsubscribe h (w2\<lparr>isDispatching := True\<rparr>)
              = (Inr Undefined, w2\<lparr>isDispatching := True\<rparr>)
         \<and> unsubscribe h (w1\<lparr>isDispatching := True\<rparr>)
              = (Inl UnsubscribeWhileReducing, w1\<lparr>isDispatching := True\<rparr>)
         \<and> classify UnsubscribeWhileReducing = ReentrancyError"
proof -
  from subscribe_idle[OF assms] obtain w1 where
    s: "subscribe listener w = (Inr (Unsub (length (closures w))), w1)"
    and l1: "live w1 = live w @ [listener]"
    and c1: "closures w1 = closures w @ [(listener, True)]"
    and wf1: "wf_world w1" and i1: "\<not> isDispatching w1" by blast
  let ?h = "length (closures w)"
  have h1: "?h < length (closures w1)" and ch: "closures w1 ! ?h = (listener, True)"
    using c1 by simp_all
  from unsubscribe_idle[OF wf1 i1 h1 ch] obtain w2 where
    u: "unsubscribe ?h w1 = (Inr Undefined, w2)"
    and l2: "live w2 = splice1 (indexOf (live w1) listener) (live w1)"
    and c2: "closures w2 = (closures w1)[?h := (listener, False)]" by blast
  have l2': "live w2 = remove1 listener (live w @ [listener])"
    using l2 l1 splice1_indexOf[of listener "live w @ [listener]"] by simp
  have h2: "?h < length (closures w2)" "\<not> snd (closures w2 ! ?h)"
    using c2 h1 by simp_all
  have a: "unsubscribe ?h w2 = (Inr Undefined, w2)"
    using unsubscribe_again[OF h2] .
  have b: "unsubscribe ?h (w2\<lparr>isDispatching := True\<rparr>) = (Inr Undefined, w2\<lparr>isDispatching := True\<rparr>)"
    using h2 by (intro unsubscribe_again) simp_all
  have c: "unsubscribe ?h (w1\<lparr>isDispatching := True\<rparr>)
             = (Inl UnsubscribeWhileReducing, w1\<lparr>isDispatching := True\<rparr>)"
    using h1 ch by (intro unsubscribe_dispatching) simp_all
  show ?thesis using s u l1 l2' a b c by auto
qed

theorem unsubscribe_idempotent_witness:
  "wf_world (initial_world (Fun 0) Undefined)
   \<and> \<not> isDispatching (initial_world (Fun 0) Undefined)
   \<and> typeof (Fun 1) = TFunction
   \<and> (\<exists>h w1 w2.
           subscribe (Fun 1) (initial_world (Fun 0) Undefined) = (Inr (Unsub h), w1)
         \<and> unsubscribe h w1 = (Inr Undefined, w2)
         \<and> live w1 = live (initial_world (Fun 0) Undefined) @ [Fun 1]
         \<and> live w2 = remove1 (Fun 1) (live (initial_world (Fun 0) Undefined) @ [Fun 1])
         \<and> unsubscribe h w2 = (Inr Undefined, w2)
         \<and> unsubscribe h (w2\<lparr>isDispatching := True\<rparr>)
              = (Inr Undefined, w2\<lparr>isDispatching := True\<rparr>)
         \<and> unsubscribe h (w1\<lparr>isDispatching := True\<rparr>)
              = (Inl UnsubscribeWhileReducing, w1\<lparr>isDispatching := True\<rparr>)
         \<and> classify UnsubscribeWhileReducing = ReentrancyError)"
proof -
  have a: "wf_world (initial_world (Fun 0) Undefined)"
    and b: "\<not> isDispatching (initial_world (Fun 0) Undefined)"
    and c: "typeof (Fun 1) = TFunction"
    by (simp_all add: wf_world_def initial_world_def)
  show ?thesis using a b c unsubscribe_idempotent[OF a b c] by blast
qed

text \<open>
  Against C9 as it is written ("fails if invoked while a transition is in progress"): an
  \<open>unsubscribe\<close> that was called before returns without an error when the reducer calls
  it. The reducer of \<open>cx9_env\<close> records \<open>returned\<close> in the state, and the same call on the
  store with the flag set returns \<open>undefined\<close>.
\<close>

theorem unsubscribe_twice_during_dispatch_returns:
  "map_option (\<lambda>(r, w). (r, currentState w)) (dispatch cx9_env 4 probe cx9_world)
     = Some (Inr probe, Str ''returned'')
   \<and> unsubscribe 0 (cx9_world\<lparr>isDispatching := True\<rparr>)
     = (Inr Undefined, cx9_world\<lparr>isDispatching := True\<rparr>)"
  by (simp add: cx9_world_def cx9_env_def probe_def numeral_nat initial_world_def
      store_object_def subscribe_def unsubscribe_def ensureCanMutateNextListeners_def
      ActionTypes_INIT_def Let_def splice1_def)

text \<open>
  Claim C10. The listeners \<open>fs\<close> are subscribed one after the other on an idle store whose
  live list is \<open>pre\<close>, all of them quiet; \<open>f\<close> is the \<open>j\<close>-th of \<open>fs\<close> and occurs \<open>n\<close> times
  in the live list. A dispatch calls every entry of the list in its order, \<open>f\<close> \<open>n\<close> times.
  The \<open>unsubscribe\<close> that the \<open>j\<close>-th subscription returned takes out the first entry of
  \<open>f\<close> in the live list, at the index \<open>k\<close> before which \<open>f\<close> does not occur, whichever of the
  subscriptions of \<open>f\<close> it came from; every other entry stays where it is, and the next
  dispatch calls \<open>f\<close> \<open>n - 1\<close> times.
\<close>

theorem duplicate_subscriptions:
  assumes wf: "wf_world w" and idle: "\<not> isDispatching w"
    and red: "currentReducer w = Fun r" and pure: "pure_reducer env r T"
    and lv: "live w = map Fun pre" and q: "\<forall>g \<in> set (pre @ fs). quiet env g"
    and va: "valid_action a"
    and cnt: "count_list (pre @ fs) f = n" and j: "j < length fs" and fj: "fs ! j = f"
  shows "\<exists>w0 w1 w2 w3 w4 k.
      subscribe (Fun f) (subscribe_all (map Fun (take j fs)) w)
        = (Inr (Unsub (length (closures w) + j)), w0)
    \<and> w1 = subscribe_all (map Fun (drop (Suc j) fs)) w0
    \<and> w1 = subscribe_all (map Fun fs) w
    \<and> live w1 = map Fun (pre @ fs)
    \<and> dispatch env (Suc (Suc (m + length pre + length fs))) a w1 = Some (Inr a, w2)
    \<and> trace w2 = trace w1 @ EvCall r [currentState w1, a] # map (\<lambda>g. EvCall g []) (pre @ fs)
    \<and> count_list (map (\<lambda>g. EvCall g []) (pre @ fs)) (EvCall f []) = n
    \<and> live w2 = live w1
    \<and> unsubscribe (length (closures w) + j) w2 = (Inr Undefined, w3)
    \<and> k < length (live w2) \<and> live w2 ! k = Fun f \<and> (\<forall>i<k. live w2 ! i \<noteq> Fun f)
    \<and> live w3 = take k (live w2) @ drop (Suc k) (live w2)
    \<and> live w3 = map Fun (remove1 f (pre @ fs))
    \<and> dispatch env (Suc (Suc (m + length pre + length fs))) a w3 = Some (Inr a, w4)
    \<and> trace w4 = trace w3 @ EvCall r [currentState w3, a]
                    # map (\<lambda>g. EvCall g []) (remove1 f (pre @ fs))
    \<and> count_list (map (\<lambda>g. EvCall g []) (remove1 f (pre @ fs))) (EvCall f []) = n - 1"
proof -
  let ?wj = "subscribe_all (map Fun (take j fs)) w"
  let ?w1 = "subscribe_all (map Fun fs) w"
  have fn: "\<forall>l \<in> set (map Fun (take j fs)). typeof l = TFunction" by auto
  from subscribe_all_idle[OF wf idle fn] j have
    pj: "closures ?wj = closures w @ map (\<lambda>l. (l, True)) (map Fun (take j fs))"
      "wf_world ?wj" "\<not> isDispatching ?wj"
    by simp_all
  have lj: "length (closures ?wj) = length (closures w) + j" using pj(1) j by simp
  from subscribe_idle[OF pj(2,3), of "Fun f"] lj obtain w0 where
    s0: "subscribe (Fun f) ?wj = (Inr (Unsub (length (closures w) + j)), w0)"
    by auto
  have split: "fs = take j fs @ f # drop (Suc j) fs"
    using id_take_nth_drop[OF j] fj by simp
  have "?w1 = subscribe_all (map Fun (take j fs @ f # drop (Suc j) fs)) w"
    using split by simp
  also have "\<dots> = subscribe_all (map Fun (drop (Suc j) fs)) w0"
    using s0 by (simp add: subscribe_all_append)
  finally have w1: "?w1 = subscribe_all (map Fun (drop (Suc j) fs)) w0" .
  have "\<forall>l \<in> set (map Fun fs). typeof l = TFunction" by auto
  from subscribe_all_idle[OF wf idle this] lv red have
    p1: "live ?w1 = map Fun (pre @ fs)"
       "closures ?w1 = closures w @ map (\<lambda>l. (l, True)) (map Fun fs)"
       "wf_world ?w1" "\<not> isDispatching ?w1" "currentReducer ?w1 = Fun r"
    by simp_all
  from dispatch_quiet[OF p1(3,4,5) pure va p1(1) q, of m] obtain w2 where
    d2: "dispatch env (Suc (Suc (m + length pre + length fs))) a ?w1 = Some (Inr a, w2)"
    and p2: "trace w2 = trace ?w1 @ EvCall r [currentState ?w1, a] # map (\<lambda>f. EvCall f []) (pre @ fs)"
      "wf_world w2" "\<not> isDispatching w2" "currentReducer w2 = Fun r"
      "live w2 = live ?w1" "closures w2 = closures ?w1"
    by (auto simp: add.assoc)
  let ?h = "length (closures w) + j"
  have h: "?h < length (closures w2)" and ch: "closures w2 ! ?h = (Fun f, True)"
    using p2(6) p1(2) j fj by (simp_all add: nth_append)
  from unsubscribe_idle[OF p2(2,3) h ch] obtain w3 where
    u3: "unsubscribe ?h w2 = (Inr Undefined, w3)"
    and p3: "live w3 = splice1 (indexOf (live w2) (Fun f)) (live w2)"
       "wf_world w3" "\<not> isDispatching w3" "currentReducer w3 = currentReducer w2"
    by blast
  have fin: "f \<in> set (pre @ fs)" using j fj by auto
  have mem: "Fun f \<in> set (live w2)" using p2(5) p1(1) fin by (simp del: set_append map_append)
  let ?k = "nat (indexOf (live w2) (Fun f))"
  note first = indexOf_first[OF mem]
  have l3: "live w3 = take ?k (live w2) @ drop (Suc ?k) (live w2)"
    using p3(1) splice1_first[OF mem] by simp
  have l3': "live w3 = map Fun (remove1 f (pre @ fs))"
    using p3(1) splice1_indexOf[OF mem] p2(5) p1(1) by (simp only: remove1_map_Fun)
  have q3: "\<forall>g \<in> set (remove1 f (pre @ fs)). quiet env g"
    using q set_remove1_subset[of f "pre @ fs"] by blast
  have r3: "currentReducer w3 = Fun r" using p3(4) p2(4) by simp
  have len: "Suc (length (remove1 f (pre @ fs))) = length pre + length fs"
  proof -
    have "0 < length (pre @ fs)" using fin by (cases "pre @ fs") simp_all
    then show ?thesis using fin by (simp add: length_remove1 del: set_append)
  qed
  have fuel: "Suc (Suc (Suc m + length (remove1 f (pre @ fs)))) = Suc (Suc (m + length pre + length fs))"
    using len by simp
  from dispatch_quiet[OF p3(2,3) r3 pure va l3' q3, of "Suc m"] obtain w4 where
    d4': "dispatch env (Suc (Suc (Suc m + length (remove1 f (pre @ fs))))) a w3 = Some (Inr a, w4)"
    and p4: "trace w4 = trace w3 @ EvCall r [currentState w3, a]
                # map (\<lambda>f. EvCall f []) (remove1 f (pre @ fs))"
    by blast
  have d4: "dispatch env (Suc (Suc (m + length pre + length fs))) a w3 = Some (Inr a, w4)"
    using d4' by (simp only: fuel)
  have c1: "count_list (map (\<lambda>g. EvCall g []) (pre @ fs)) (EvCall f []) = n"
    using cnt by (simp only: count_list_calls)
  have c2: "count_list (map (\<lambda>g. EvCall g []) (remove1 f (pre @ fs))) (EvCall f []) = n - 1"
    using cnt count_list_remove1[OF fin] by (simp only: count_list_calls)
  show ?thesis
    using s0 w1 p1(1) d2 p2(1) c1 p2(5) u3 first l3 l3' d4 p4 c2 by blast
qed


theorem duplicate_subscriptions_witness:
  "wf_world (initial_world (Fun 0) Undefined)
   \<and> \<not> isDispatching (initial_world (Fun 0) Undefined)
   \<and> currentReducer (initial_world (Fun 0) Undefined) = Fun 0
   \<and> pure_reducer ex_env 0 count
   \<and> live (initial_world (Fun 0) Undefined) = map Fun []
   \<and> quiet ex_env 1 \<and> quiet ex_env 2 \<and> valid_action act_inc
   \<and> count_list ([] @ [1, 2, 1]) (1::nat) = 2
   \<and> (2::nat) < length [1, 2, 1::nat] \<and> [1, 2, 1::nat] ! 2 = 1
   \<and> (\<exists>w0 w1 w2 w3 w4 k.
      subscribe (Fun 1) (subscribe_all (map Fun (take 2 [1, 2, 1])) (initial_world (Fun 0) Undefined))
        = (Inr (Unsub (length (closures (initial_world (Fun 0) Undefined)) + 2)), w0)
    \<and> w1 = subscribe_all (map Fun (drop (Suc 2) [1, 2, 1])) w0
    \<and> w1 = subscribe_all (map Fun [1, 2, 1]) (initial_world (Fun 0) Undefined)
    \<and> live w1 = [Fun 1, Fun 2, Fun 1]
    \<and> dispatch ex_env (Suc (Suc (0 + length ([]::nat list) + length [1, 2, 1::nat]))) act_inc w1
        = Some (Inr act_inc, w2)
    \<and> trace w2 = trace w1 @ [EvCall 0 [currentState w1, act_inc], EvCall 1 [], EvCall 2 [], EvCall 1 []]
    \<and> count_list (map (\<lambda>g. EvCall g []) ([] @ [1, 2, 1])) (EvCall 1 []) = 2
    \<and> live w2 = live w1
    \<and> unsubscribe (length (closures (initial_world (Fun 0) Undefined)) + 2) w2 = (Inr Undefined, w3)
    \<and> k = 0 \<and> live w2 ! k = Fun 1
    \<and> live w3 = take k (live w2) @ drop (Suc k) (live w2)
    \<and> live w3 = [Fun 2, Fun 1]
    \<and> dispatch ex_env (Suc (Suc (0 + length ([]::nat list) + length [1, 2, 1::nat]))) act_inc w3
        = Some (Inr act_inc, w4)
    \<and> trace w4 = trace w3 @ [EvCall 0 [currentState w3, act_inc], EvCall 2 [], EvCall 1 []]
    \<and> count_list (map (\<lambda>g. EvCall g []) (remove1 1 ([] @ [1, 2, 1]))) (EvCall 1 []) = 2 - 1)"
proof -
  let ?w = "initial_world (Fun 0) Undefined"
  have q1: "quiet ex_env 1" and q2: "quiet ex_env 2" by (rule ex_env_quiet, simp)+
  have lv: "live ?w = map Fun []" by (simp add: initial_world_props)
  have q: "\<forall>g \<in> set ([] @ [1, 2, 1::nat]). quiet ex_env g" using q1 q2 by simp
  have cnt: "count_list ([] @ [1, 2, 1]) (1::nat) = 2" by simp
  have j: "(2::nat) < length [1, 2, 1::nat]" by simp
  have fj: "[1, 2, 1::nat] ! 2 = 1" by simp
  from duplicate_subscriptions[OF initial_world_props(1,2,3) ex_env_pure lv q valid_act_inc cnt j fj, of 0]
  obtain w0 w1 w2 w3 w4 k where
    a: "subscribe (Fun 1) (subscribe_all (map Fun (take 2 [1, 2, 1])) ?w)
          = (Inr (Unsub (length (closures ?w) + 2)), w0)"
      "w1 = subscribe_all (map Fun (drop (Suc 2) [1, 2, 1])) w0"
      "w1 = subscribe_all (map Fun [1, 2, 1]) ?w"
    and l1: "live w1 = map Fun ([] @ [1, 2, 1])"
    and d2: "dispatch ex_env (Suc (Suc (0 + length ([]::nat list) + length [1, 2, 1::nat]))) act_inc w1
        = Some (Inr act_inc, w2)"
    and t2: "trace w2 = trace w1 @ EvCall 0 [currentState w1, act_inc]
                # map (\<lambda>g. EvCall g []) ([] @ [1, 2, 1])"
    and c2: "count_list (map (\<lambda>g. EvCall g []) ([] @ [1, 2, 1])) (EvCall 1 []) = 2"
    and l2: "live w2 = live w1"
    and u3: "unsubscribe (length (closures ?w) + 2) w2 = (Inr Undefined, w3)"
    and k: "k < length (live w2)" "live w2 ! k = Fun 1" "\<forall>i<k. live w2 ! i \<noteq> Fun 1"
    and l3: "live w3 = take k (live w2) @ drop (Suc k) (live w2)"
      "live w3 = map Fun (remove1 1 ([] @ [1, 2, 1]))"
    and d4: "dispatch ex_env (Suc (Suc (0 + length ([]::nat list) + length [1, 2, 1::nat]))) act_inc w3
        = Some (Inr act_inc, w4)"
    and t4: "trace w4 = trace w3 @ EvCall 0 [currentState w3, act_inc]
                # map (\<lambda>g. EvCall g []) (remove1 1 ([] @ [1, 2, 1]))"
    and c4: "count_list (map (\<lambda>g. EvCall g []) (remove1 1 ([] @ [1, 2, 1]))) (EvCall 1 []) = 2 - 1"
    by blast
  have l1': "live w1 = [Fun 1, Fun 2, Fun 1]" using l1 by simp
  have k0: "k = 0"
  proof (rule ccontr)
    assume "k \<noteq> 0"
    then have "live w2 ! 0 \<noteq> Fun 1" using k(3) by simp
    then show False using l2 l1' by simp
  qed
  have t2': "trace w2 = trace w1 @ [EvCall 0 [currentState w1, act_inc], EvCall 1 [], EvCall 2 [], EvCall 1 []]"
    using t2 by simp
  have l3': "live w3 = [Fun 2, Fun 1]" using l3(2) by simp
  have t4': "trace w4 = trace w3 @ [EvCall 0 [currentState w3, act_inc], EvCall 2 [], EvCall 1 []]"
    using t4 by simp
  have ex: "\<exists>w0 w1 w2 w3 w4 k.
      subscribe (Fun 1) (subscribe_all (map Fun (take 2 [1, 2, 1])) ?w)
        = (Inr (Unsub (length (closures ?w) + 2)), w0)
    \<and> w1 = subscribe_all (map Fun (drop (Suc 2) [1, 2, 1])) w0
    \<and> w1 = subscribe_all (map Fun [1, 2, 1]) ?w
    \<and> live w1 = [Fun 1, Fun 2, Fun 1]
    \<and> dispatch ex_env (Suc (Suc (0 + length ([]::nat list) + length [1, 2, 1::nat]))) act_inc w1
        = Some (Inr act_inc, w2)
    \<and> trace w2 = trace w1 @ [EvCall 0 [currentState w1, act_inc], EvCall 1 [], EvCall 2 [], EvCall 1 []]
    \<and> count_list (map (\<lambda>g. EvCall g []) ([] @ [1, 2, 1])) (EvCall 1 []) = 2
    \<and> live w2 = live w1
    \<and> unsubscribe (length (closures ?w) + 2) w2 = (Inr Undefined, w3)
    \<and> k = 0 \<and> live w2 ! k = Fun 1
    \<and> live w3 = take k (live w2) @ drop (Suc k) (live w2)
    \<and> live w3 = [Fun 2, Fun 1]
    \<and> dispatch ex_env (Suc (Suc (0 + length ([]::nat list) + length [1, 2, 1::nat]))) act_inc w3
        = Some (Inr act_inc, w4)
    \<and> trace w4 = trace w3 @ [EvCall 0 [currentState w3, act_inc], EvCall 2 [], EvCall 1 []]
    \<and> count_list (map (\<lambda>g. EvCall g []) (remove1 1 ([] @ [1, 2, 1]))) (EvCall 1 []) = 2 - 1"
    using a l1' d2 t2' c2 l2 u3 k0 k(2) l3(1) l3' d4 t4' c4 by blast
  show ?thesis
    using ex initial_world_props(1,2,3)[of "Fun 0" Undefined] ex_env_pure lv q1 q2 valid_act_inc cnt j fj
    by blast
qed

end
